theory Spec2Isabelle
  imports
    Main
    "HOL-Library.Word"
    "HOL-Library.Sublist"
    "HOL-Library.Multiset"
    "HOL-Library.AList"
    "HOL-Library.Char_ord"
    "HOL-Library.List_Lexorder"
    "HOL-Library.Monad_Syntax"
begin

section \<open>heaptrack GUI parser: call-tree aggregation and chart data\<close>

text \<open>
  A shallow embedding of \<^verbatim>\<open>src/gui/parser.cpp\<close>: the string cache, the timestamp chart
  aggregation of \<^verbatim>\<open>ParserData\<close>, the bottom-up merge \<^verbatim>\<open>mergeAllocations\<close> and the top-down
  inversion \<^verbatim>\<open>buildTopDown\<close>/\<^verbatim>\<open>toTopDownData\<close>.

  Conventions. \<^verbatim>\<open>uint64_t\<close>/\<^verbatim>\<open>quint64\<close> values are \<open>64 word\<close>, so \<^verbatim>\<open>+=\<close> wraps around
  as in the program. Indices into tables (\<^verbatim>\<open>StringIndex\<close>, \<^verbatim>\<open>IpIndex\<close>, \<^verbatim>\<open>TraceIndex\<close>)
  are \<open>nat\<close>: the program only tests them against zero, compares them with a size and
  subtracts one from a non-zero index. \<^verbatim>\<open>QString\<close> and \<^verbatim>\<open>std::string\<close> are \<open>string\<close>. A
  function that can throw returns an \<open>option\<close> (\<open>None\<close>: no result); a loop that may
  run forever is a \<^theory_text>\<open>partial_function (option)\<close>, where \<open>None\<close> also stands for
  ``does not return''.
\<close>

subsection \<open>Records of the trace store\<close>

text \<open>
  The declarations of \<^verbatim>\<open>accumulatedtracedata.h\<close> and \<^verbatim>\<open>parser.h\<close> are not part of the
  source file; the records below list the fields that \<^verbatim>\<open>parser.cpp\<close> reads and writes.
\<close>

record InstructionPointer =
  instructionPointer :: "64 word"
  moduleIndex :: nat
  functionIndex :: nat
  fileIndex :: nat
  line :: int

record TraceNode =
  ipIndex :: nat
  parentIndex :: nat

record Allocation =
  allocations :: "64 word"
  peak :: "64 word"
  leaked :: "64 word"
  allocated :: "64 word"
  traceIndex :: nat

subsection \<open>Locations\<close>

text \<open>
  \<^verbatim>\<open>LocationData\<close> is the aggregate \<^verbatim>\<open>{function, file, module, line}\<close> built by
  \<^verbatim>\<open>StringCache::location\<close>.

  Modelled from the spec: the comparison operators of \<^verbatim>\<open>LocationData\<close> live in
  \<^verbatim>\<open>parser.h\<close>, which is missing. The spec says that two locations are equal iff all
  fields are equal and that locations are totally ordered. Equality is equality of the four
  fields; the order is the lexicographic order of the fields. Every lemma on the trees
  below uses only that the order is a linear order.
\<close>

datatype LocationData = LocationData string string string int

fun locKey :: "LocationData \<Rightarrow> string \<times> string \<times> string \<times> int" where
  "locKey (LocationData f fi m l) = (f, fi, m, l)"

fun lexLess4 :: "string \<times> string \<times> string \<times> int \<Rightarrow> string \<times> string \<times> string \<times> int \<Rightarrow> bool" where
  "lexLess4 (a, b, c, d) (a', b', c', d') =
     (a < a' \<or> (a = a' \<and> (b < b' \<or> (b = b' \<and> (c < c' \<or> (c = c' \<and> d < d'))))))"

instantiation LocationData :: linorder
begin

definition less_LocationData :: "LocationData \<Rightarrow> LocationData \<Rightarrow> bool" where
  "less_LocationData x y = lexLess4 (locKey x) (locKey y)"

definition less_eq_LocationData :: "LocationData \<Rightarrow> LocationData \<Rightarrow> bool" where
  "less_eq_LocationData x y = (x = y \<or> lexLess4 (locKey x) (locKey y))"

instance
proof
  fix x y z :: LocationData
  show "(x < y) = (x \<le> y \<and> \<not> y \<le> x)"
    by (cases x; cases y) (auto simp: less_LocationData_def less_eq_LocationData_def)
  show "x \<le> x"
    by (simp add: less_eq_LocationData_def)
  show "x \<le> y \<Longrightarrow> y \<le> z \<Longrightarrow> x \<le> z"
    by (cases x; cases y; cases z)
       (auto simp: less_eq_LocationData_def)
  show "x \<le> y \<Longrightarrow> y \<le> x \<Longrightarrow> x = y"
    by (cases x; cases y) (auto simp: less_eq_LocationData_def)
  show "x \<le> y \<or> y \<le> x"
    by (cases x; cases y) (auto simp: less_eq_LocationData_def)
qed

end

subsection \<open>StringCache\<close>

text \<open>
  \<^verbatim>\<open>std::vector::at\<close> throws \<^verbatim>\<open>std::out_of_range\<close> for an index that is not below the
  size.
\<close>

definition at :: "'a list \<Rightarrow> nat \<Rightarrow> 'a option" where
  "at xs i = (if i < length xs then Some (xs ! i) else None)"

text \<open>\<^verbatim>\<open>QString::number(n, 16)\<close>: lower-case hexadecimal digits without leading zeros.\<close>

definition hexDigit :: "nat \<Rightarrow> char" where
  "hexDigit n = (''0123456789abcdef'') ! (n mod 16)"

function number16 :: "nat \<Rightarrow> string" where
  "number16 n = (if n < 16 then [hexDigit n] else number16 (n div 16) @ [hexDigit (n mod 16)])"
  by pat_completeness auto
termination
  by (relation "measure id") auto

declare number16.simps [simp del]

record StringCache =
  m_strings :: "string list"

text \<open>\<^verbatim>\<open>StringCache::stringify\<close>.\<close>

definition StringCache_stringify :: "StringCache \<Rightarrow> nat \<Rightarrow> string option" where
  "StringCache_stringify sc index =
     (if index = 0 \<or> index > length (m_strings sc) then Some []
      else at (m_strings sc) (index - 1))"

text \<open>
  \<^verbatim>\<open>StringCache::func\<close>. The member \<^verbatim>\<open>m_ipAddresses\<close> memoises the hexadecimal string of an
  address: an entry is either absent (read as the empty string and then set) or holds the
  string \<^verbatim>\<open>"0x" + QString::number(ip, 16)\<close>, which is never empty. The value returned is
  therefore the same with and without the memo table, and the table is left out of the
  record.
\<close>

definition StringCache_func :: "StringCache \<Rightarrow> InstructionPointer \<Rightarrow> string option" where
  "StringCache_func sc ip =
     (if functionIndex ip \<noteq> 0 then StringCache_stringify sc (functionIndex ip)
      else Some (''0x'' @ number16 (unat (instructionPointer ip))))"

definition StringCache_file :: "StringCache \<Rightarrow> InstructionPointer \<Rightarrow> string option" where
  "StringCache_file sc ip =
     (if fileIndex ip \<noteq> 0 then StringCache_stringify sc (fileIndex ip) else Some [])"

definition StringCache_module :: "StringCache \<Rightarrow> InstructionPointer \<Rightarrow> string option" where
  "StringCache_module sc ip = StringCache_stringify sc (moduleIndex ip)"

definition StringCache_location :: "StringCache \<Rightarrow> InstructionPointer \<Rightarrow> LocationData option" where
  "StringCache_location sc ip =
     do {
       f \<leftarrow> StringCache_func sc ip;
       fi \<leftarrow> StringCache_file sc ip;
       m \<leftarrow> StringCache_module sc ip;
       Some (LocationData f fi m (line ip))
     }"

text \<open>
  \<^verbatim>\<open>StringCache::update\<close>: the entries of \<open>strings\<close> from position \<open>m_strings.size()\<close> on are
  appended to the cache.
\<close>

definition StringCache_update :: "StringCache \<Rightarrow> string list \<Rightarrow> StringCache" where
  "StringCache_update sc strings =
     sc\<lparr>m_strings := m_strings sc @ drop (length (m_strings sc)) strings\<rparr>"

subsection \<open>Library containers\<close>

text \<open>
  \<^verbatim>\<open>std::lower_bound(first, last, value)\<close> on a range that is partitioned by
  \<^verbatim>\<open>element < value\<close> returns the first position whose element is not less than the
  value (the end if there is none). The argument \<open>lt\<close> is the test \<^verbatim>\<open>element < value\<close>.
  The program only searches vectors it has built by inserting at the position found,
  starting from the empty vector.
\<close>

definition lower_bound :: "('a \<Rightarrow> bool) \<Rightarrow> 'a list \<Rightarrow> nat" where
  "lower_bound lt xs = length (takeWhile lt xs)"

text \<open>\<^verbatim>\<open>vector::insert(it, x)\<close> and \<^verbatim>\<open>QVector::insert(it, x)\<close>: \<open>x\<close> is put before position \<open>it\<close>.\<close>

definition insert_at :: "nat \<Rightarrow> 'a \<Rightarrow> 'a list \<Rightarrow> 'a list" where
  "insert_at it x xs = take it xs @ x # drop it xs"

text \<open>
  A \<^verbatim>\<open>QHash\<close> is an association list with distinct keys. \<^verbatim>\<open>insert(k, v)\<close> replaces the value of
  a key that is present; \<^verbatim>\<open>operator[]\<close> adds a default-constructed value for a key that is
  absent and refers to the key's value; \<^verbatim>\<open>size()\<close> is the number of keys. The order in
  which a \<^verbatim>\<open>QHash\<close> is iterated is not specified by Qt; the list order stands for it.
\<close>

type_synonym ('k, 'v) QHash = "('k \<times> 'v) list"

definition QHash_insert :: "'k \<Rightarrow> 'v \<Rightarrow> ('k, 'v) QHash \<Rightarrow> ('k, 'v) QHash" where
  "QHash_insert k v h = AList.update k v h"

definition QHash_subscript :: "('k, 'v) QHash \<Rightarrow> 'k \<Rightarrow> 'v \<Rightarrow> ('k, 'v) QHash \<times> 'v" where
  "QHash_subscript h k dflt =
     (case map_of h k of
        None \<Rightarrow> (h @ [(k, dflt)], dflt)
      | Some v \<Rightarrow> (h, v))"

definition QHash_size :: "('k, 'v) QHash \<Rightarrow> int" where
  "QHash_size h = int (length h)"

subsection \<open>ParserData\<close>

record ChartMergeData =
  function' :: string
  consumed :: "64 word"
  allocations :: "64 word"
  allocated :: "64 word"

record ChartRows =
  timeStamp :: "64 word"
  cost :: "(int, 64 word) QHash"

record ChartData =
  rows :: "ChartRows list"
  labels :: "(int, string) QHash"

record ChartDataWithLabels =
  data :: ChartData
  labelIds :: "(string, int) QHash"

text \<open>
  The base class \<^verbatim>\<open>AccumulatedTraceData\<close> is not part of the source file. Its tables
  \<open>traces\<close>, \<open>instructionPointers\<close> and \<open>stopIndices\<close> are read only through the methods
  \<^verbatim>\<open>findTrace\<close>, \<^verbatim>\<open>findIp\<close> and \<^verbatim>\<open>isStopIndex\<close>, which are fields of the record: every
  result below holds for all such functions.
\<close>

record AccumulatedTraceData =
  allocations :: "Allocation list"
  strings :: "string list"
  leaked :: "64 word"
  peak :: "64 word"
  totalAllocated :: "64 word"
  totalAllocations :: "64 word"
  totalTime :: "64 word"
  findTrace :: "nat \<Rightarrow> TraceNode"
  findIp :: "nat \<Rightarrow> InstructionPointer"
  isStopIndex :: "nat \<Rightarrow> bool"

record ParserData = AccumulatedTraceData +
  debuggee :: string
  consumedChartData :: ChartDataWithLabels
  allocationsChartData :: ChartDataWithLabels
  allocatedChartData :: ChartDataWithLabels
  maxConsumedSinceLastTimeStamp :: "64 word"
  stringCache :: StringCache

text \<open>
  The constructor \<^verbatim>\<open>ParserData::ParserData\<close>. \<open>totalLabel\<close> is the string \<^verbatim>\<open>i18n("total")\<close>; \<open>base\<close>
  is the state of the base class.
\<close>

definition ParserData_ctor :: "string \<Rightarrow> AccumulatedTraceData \<Rightarrow> ParserData" where
  "ParserData_ctor totalLabel base =
     (let chart = \<lparr>data = \<lparr>rows = [\<lparr>timeStamp = 0, cost = []\<rparr>], labels = []\<rparr>,
                   labelIds = QHash_insert totalLabel 0 []\<rparr>
      in \<lparr>AccumulatedTraceData.allocations = AccumulatedTraceData.allocations base,
          strings = strings base,
          AccumulatedTraceData.leaked = AccumulatedTraceData.leaked base,
          AccumulatedTraceData.peak = AccumulatedTraceData.peak base,
          totalAllocated = totalAllocated base,
          totalAllocations = totalAllocations base,
          totalTime = totalTime base,
          findTrace = findTrace base,
          findIp = findIp base,
          isStopIndex = isStopIndex base,
          debuggee = [],
          consumedChartData = chart,
          allocationsChartData = chart,
          allocatedChartData = chart,
          maxConsumedSinceLastTimeStamp = 0,
          stringCache = \<lparr>m_strings = []\<rparr>\<rparr>)"

text \<open>
  The first loop of \<^verbatim>\<open>handleTimeStamp\<close>: one allocation is merged into \<open>mergedData\<close>, which is
  kept sorted by function name.
\<close>

definition mergeChartAllocation ::
  "ParserData \<Rightarrow> ChartMergeData list \<Rightarrow> Allocation \<Rightarrow> ChartMergeData list option" where
  "mergeChartAllocation d mergedData allocation =
     do {
       fn \<leftarrow> StringCache_func (stringCache d)
               (findIp d (ipIndex (findTrace d (traceIndex allocation))));
       let it = lower_bound (\<lambda>e. function' e < fn) mergedData;
       Some (if it < length mergedData \<and> function' (mergedData ! it) = fn
             then mergedData[it := (mergedData ! it)
                    \<lparr>ChartMergeData.allocated :=
                       ChartMergeData.allocated (mergedData ! it) + Allocation.allocated allocation,
                     ChartMergeData.allocations :=
                       ChartMergeData.allocations (mergedData ! it) + Allocation.allocations allocation,
                     consumed := consumed (mergedData ! it) + Allocation.leaked allocation\<rparr>]
             else insert_at it
                    \<lparr>function' = fn, consumed = Allocation.leaked allocation,
                     ChartMergeData.allocations = Allocation.allocations allocation,
                     ChartMergeData.allocated = Allocation.allocated allocation\<rparr>
                    mergedData)
     }"

fun mergeChartData ::
  "ParserData \<Rightarrow> ChartMergeData list \<Rightarrow> Allocation list \<Rightarrow> ChartMergeData list option" where
  "mergeChartData d mergedData [] = Some mergedData"
| "mergeChartData d mergedData (allocation # rest) =
     do {
       mergedData' \<leftarrow> mergeChartAllocation d mergedData allocation;
       mergeChartData d mergedData' rest
     }"

text \<open>
  The statements \<^verbatim>\<open>auto& id = data->labelIds[alloc.function]; if (!id) id = data->labelIds.size() - 1;\<close>
  of \<^verbatim>\<open>addChartData\<close>: the table after them, and the id.
\<close>

definition labelId :: "(string, int) QHash \<Rightarrow> string \<Rightarrow> (string, int) QHash \<times> int" where
  "labelId ids fn =
     (let (ids', id) = QHash_subscript ids fn 0
      in if id = 0
         then (QHash_insert fn (QHash_size ids' - 1) ids', QHash_size ids' - 1)
         else (ids', id))"

text \<open>
  The \<^verbatim>\<open>for\<close> loop of \<^verbatim>\<open>addChartData\<close> from index \<open>i\<close> on. \<open>member\<close> is the pointer to member
  \<^verbatim>\<open>quint64 ChartMergeData::*\<close>, \<open>ids\<close> is \<^verbatim>\<open>data->labelIds\<close> and \<open>rowCost\<close> is \<^verbatim>\<open>row.cost\<close>;
  the result is the pair of both after the loop.
\<close>

function addChartCosts ::
  "(ChartMergeData \<Rightarrow> 64 word) \<Rightarrow> ChartMergeData list \<Rightarrow> nat \<Rightarrow>
   (string, int) QHash \<Rightarrow> (int, 64 word) QHash \<Rightarrow> (string, int) QHash \<times> (int, 64 word) QHash" where
  "addChartCosts member mergedData i ids rowCost =
     (if i < min 10 (length mergedData) then
        (let alloc = mergedData ! i in
         if member alloc = 0 then (ids, rowCost)
         else (let (ids', id) = labelId ids (function' alloc)
               in addChartCosts member mergedData (i + 1) ids'
                    (QHash_insert id (member alloc) rowCost)))
      else (ids, rowCost))"
  by pat_completeness auto
termination
  by (relation "measure (\<lambda>(member, mergedData, i, ids, rowCost). min 10 (length mergedData) - i)")
     auto

declare addChartCosts.simps [simp del]

text \<open>
  The lambda \<^verbatim>\<open>addChartData\<close>. It captures \<open>mergedData\<close> by reference and sorts it in place, so
  the sorted vector is returned with the chart. \<^verbatim>\<open>std::sort\<close> does not fix the order of
  elements that compare equal; the sorting function is the parameter \<open>srt\<close>, and
  \<open>sorts srt\<close> says what the C++ standard promises of it.
\<close>

type_synonym sorter =
  "(ChartMergeData \<Rightarrow> 64 word) \<Rightarrow> ChartMergeData list \<Rightarrow> ChartMergeData list"

definition sorts :: "sorter \<Rightarrow> bool" where
  "sorts srt =
     (\<forall>member xs. mset (srt member xs) = mset xs \<and>
        sorted_wrt (\<lambda>left right. \<not> member right > member left) (srt member xs))"

definition addChartData ::
  "sorter \<Rightarrow> 64 word \<Rightarrow> 64 word \<Rightarrow> ChartMergeData list \<Rightarrow> (ChartMergeData \<Rightarrow> 64 word) \<Rightarrow>
   ChartDataWithLabels \<Rightarrow> 64 word \<Rightarrow> ChartMergeData list \<times> ChartDataWithLabels" where
  "addChartData srt newStamp totalTime' mergedData member dat totalCost =
     (let cost0 = QHash_insert 0 totalCost [];
          mergedData' = srt member mergedData;
          (ids', rowCost) = addChartCosts member mergedData' 0 (labelIds dat) cost0;
          row = \<lparr>timeStamp = newStamp, cost = rowCost\<rparr>;
          rows' = rows (data dat) @ [row];
          labels' = (if newStamp = totalTime'
                     then fold (\<lambda>(key, val). QHash_insert val key) ids' (labels (data dat))
                     else labels (data dat))
      in (mergedData', \<lparr>data = \<lparr>rows = rows', labels = labels'\<rparr>, labelIds = ids'\<rparr>))"

definition handleTimeStamp :: "sorter \<Rightarrow> ParserData \<Rightarrow> 64 word \<Rightarrow> 64 word \<Rightarrow> ParserData option" where
  "handleTimeStamp srt d oldStamp newStamp =
     (let d1 = d\<lparr>stringCache := StringCache_update (stringCache d) (strings d),
                 maxConsumedSinceLastTimeStamp :=
                   max (maxConsumedSinceLastTimeStamp d) (AccumulatedTraceData.leaked d)\<rparr>
      in do {
        mergedData \<leftarrow> mergeChartData d1 [] (AccumulatedTraceData.allocations d1);
        let (mergedData1, consumedChart) =
              addChartData srt newStamp (totalTime d1) mergedData consumed
                (consumedChartData d1) (maxConsumedSinceLastTimeStamp d1);
        let (mergedData2, allocatedChart) =
              addChartData srt newStamp (totalTime d1) mergedData1 ChartMergeData.allocated
                (allocatedChartData d1) (totalAllocated d1);
        let (mergedData3, allocationsChart) =
              addChartData srt newStamp (totalTime d1) mergedData2 ChartMergeData.allocations
                (allocationsChartData d1) (totalAllocations d1);
        Some (d1\<lparr>consumedChartData := consumedChart,
                  allocatedChartData := allocatedChart,
                  allocationsChartData := allocationsChart,
                  maxConsumedSinceLastTimeStamp := 0\<rparr>)
      })"

definition handleAllocation :: "ParserData \<Rightarrow> ParserData" where
  "handleAllocation d =
     d\<lparr>maxConsumedSinceLastTimeStamp :=
         max (maxConsumedSinceLastTimeStamp d) (AccumulatedTraceData.leaked d)\<rparr>"

text \<open>
  Modelled from the spec: \<^verbatim>\<open>AccumulatedTraceData::read\<close>, which drives the two handlers, is
  not part of the source file. The spec describes it as an external ingester that updates
  the base class's tables and delivers timestamp-boundary events in order. An event carries
  the state of the base class at the moment the handler is called.
\<close>

datatype event =
  AllocationEvent AccumulatedTraceData
| TimeStampEvent AccumulatedTraceData "64 word" "64 word"

definition ingest :: "AccumulatedTraceData \<Rightarrow> ParserData \<Rightarrow> ParserData" where
  "ingest base d =
     d\<lparr>AccumulatedTraceData.allocations := AccumulatedTraceData.allocations base,
       strings := strings base,
       AccumulatedTraceData.leaked := AccumulatedTraceData.leaked base,
       AccumulatedTraceData.peak := AccumulatedTraceData.peak base,
       totalAllocated := totalAllocated base,
       totalAllocations := totalAllocations base,
       totalTime := totalTime base,
       findTrace := findTrace base,
       findIp := findIp base,
       isStopIndex := isStopIndex base\<rparr>"

fun handleEvent :: "sorter \<Rightarrow> ParserData \<Rightarrow> event \<Rightarrow> ParserData option" where
  "handleEvent srt d (AllocationEvent base) = Some (handleAllocation (ingest base d))"
| "handleEvent srt d (TimeStampEvent base oldStamp newStamp) =
     handleTimeStamp srt (ingest base d) oldStamp newStamp"

fun handleEvents :: "sorter \<Rightarrow> ParserData \<Rightarrow> event list \<Rightarrow> ParserData option" where
  "handleEvents srt d [] = Some d"
| "handleEvents srt d (e # es) =
     do { d' \<leftarrow> handleEvent srt d e; handleEvents srt d' es }"

fun isTimeStamp :: "event \<Rightarrow> bool" where
  "isTimeStamp (TimeStampEvent base oldStamp newStamp) = True"
| "isTimeStamp (AllocationEvent base) = False"

subsection \<open>The bottom-up forest\<close>

text \<open>
  \<^verbatim>\<open>RowData\<close> of \<^verbatim>\<open>parser.h\<close>, in the field order of the aggregate initialisers
  \<^verbatim>\<open>{allocations, peak, leaked, allocated, location, parent, children}\<close>.

  The field \<open>parent\<close> is a pointer to a \<^verbatim>\<open>RowData\<close> inside a forest. A pointer is the
  address of its target: the list of positions that lead from the forest's top-level
  vector down to the target, so \<open>[2, 0]\<close> is the first child of the third top-level row.
  \<open>None\<close> is \<^verbatim>\<open>nullptr\<close>. The forest itself is the store in which an address is looked up
  (\<open>rowAt\<close> below). An address stays meaningful only while rows are not moved, which is why
  the program sets the pointers after the last insertion.
\<close>

type_synonym address = "nat list"

datatype RowData = RowData
  (allocations: "64 word") (peak: "64 word") (leaked: "64 word") (allocated: "64 word")
  (location: LocationData) (parent: "address option") (children: "RowData list")

fun rowAt :: "RowData list \<Rightarrow> address \<Rightarrow> RowData option" where
  "rowAt forest [] = None"
| "rowAt forest [i] = at forest i"
| "rowAt forest (i # j # js) =
     (case at forest i of
        None \<Rightarrow> None
      | Some row \<Rightarrow> rowAt (RowData.children row) (j # js))"

text \<open>
  \<^verbatim>\<open>setParents(children, parent)\<close>. The rows of \<open>children\<close> live in the vector owned by the row
  at address \<open>parent\<close> (in the top-level vector for \<^verbatim>\<open>nullptr\<close>), so \<^verbatim>\<open>&row\<close> for the row at
  position \<open>i\<close> is the parent's address followed by \<open>i\<close>. \<open>setParentsFrom i\<close> is the loop from
  position \<open>i\<close> on.
\<close>

fun vectorAddress :: "address option \<Rightarrow> address" where
  "vectorAddress None = []"
| "vectorAddress (Some a) = a"

fun setParentsFrom :: "nat \<Rightarrow> RowData list \<Rightarrow> address option \<Rightarrow> RowData list" where
  "setParentsFrom i [] par = []"
| "setParentsFrom i (RowData a p l al loc old ch # rest) par =
     RowData a p l al loc par (setParentsFrom 0 ch (Some (vectorAddress par @ [i])))
       # setParentsFrom (Suc i) rest par"

definition setParents :: "RowData list \<Rightarrow> address option \<Rightarrow> RowData list" where
  "setParents chs par = setParentsFrom 0 chs par"

text \<open>The four \<^verbatim>\<open>+=\<close> of \<^verbatim>\<open>mergeAllocations\<close> on the row found.\<close>

fun addAllocation :: "RowData \<Rightarrow> Allocation \<Rightarrow> RowData" where
  "addAllocation (RowData a p l al loc par ch) allocation =
     RowData (a + Allocation.allocations allocation) (p + Allocation.peak allocation)
       (l + Allocation.leaked allocation) (al + Allocation.allocated allocation) loc par ch"

fun setChildren :: "RowData \<Rightarrow> RowData list \<Rightarrow> RowData" where
  "setChildren (RowData a p l al loc par ch) ch' = RowData a p l al loc par ch'"

text \<open>
  The \<^verbatim>\<open>while (traceIndex)\<close> loop of \<^verbatim>\<open>mergeAllocations\<close> for one allocation. \<open>rws\<close> is the vector
  that the pointer \<open>rows\<close> refers to; the result is that vector after the rest of the
  loop. The loop follows \<open>parentIndex\<close> through the trace table and does not return when
  the chain is cyclic.
\<close>

partial_function (option) mergeAllocation ::
  "ParserData \<Rightarrow> Allocation \<Rightarrow> nat \<Rightarrow> RowData list \<Rightarrow> RowData list option" where
  "mergeAllocation d allocation traceIndex' rws =
     (if traceIndex' = 0 then Some rws
      else
        (let trace = findTrace d traceIndex';
             ip = findIp d (ipIndex trace)
         in do {
           loc \<leftarrow> StringCache_location (stringCache d) ip;
           let it = lower_bound (\<lambda>row. RowData.location row < loc) rws;
           let rws' =
             (if it < length rws \<and> RowData.location (rws ! it) = loc
              then rws[it := addAllocation (rws ! it) allocation]
              else insert_at it
                     (RowData (Allocation.allocations allocation) (Allocation.peak allocation)
                        (Allocation.leaked allocation) (Allocation.allocated allocation)
                        loc None [])
                     rws);
           if isStopIndex d (functionIndex ip) then Some rws'
           else do {
             ch \<leftarrow> mergeAllocation d allocation (parentIndex trace)
                     (RowData.children (rws' ! it));
             Some (rws'[it := setChildren (rws' ! it) ch])
           }
         }))"

declare mergeAllocation.simps [code]

fun mergeAllocationsLoop ::
  "ParserData \<Rightarrow> Allocation list \<Rightarrow> RowData list \<Rightarrow> RowData list option" where
  "mergeAllocationsLoop d [] topRows = Some topRows"
| "mergeAllocationsLoop d (allocation # rest) topRows =
     do {
       topRows' \<leftarrow> mergeAllocation d allocation (traceIndex allocation) topRows;
       mergeAllocationsLoop d rest topRows'
     }"

definition mergeAllocations :: "ParserData \<Rightarrow> RowData list option" where
  "mergeAllocations d =
     do {
       topRows \<leftarrow> mergeAllocationsLoop d (AccumulatedTraceData.allocations d) [];
       Some (setParents topRows None)
     }"

subsection \<open>The top-down forest\<close>

text \<open>
  \<^verbatim>\<open>findByLocation\<close>: the position of the first row of \<open>dat\<close> with the location of \<open>row\<close>, \<open>None\<close>
  for \<^verbatim>\<open>nullptr\<close>. \<open>findByLocationFrom i\<close> is the loop from position \<open>i\<close> on.
\<close>

function findByLocationFrom :: "nat \<Rightarrow> RowData \<Rightarrow> RowData list \<Rightarrow> nat option" where
  "findByLocationFrom i row dat =
     (if i < length dat then
        (if RowData.location (dat ! i) = RowData.location row then Some i
         else findByLocationFrom (i + 1) row dat)
      else None)"
  by pat_completeness auto
termination
  by (relation "measure (\<lambda>(i, row, dat). length dat - i)") auto

declare findByLocationFrom.simps [simp del]

definition findByLocation :: "RowData \<Rightarrow> RowData list \<Rightarrow> nat option" where
  "findByLocation row dat = findByLocationFrom 0 row dat"

text \<open>The four \<^verbatim>\<open>+=\<close> of \<^verbatim>\<open>buildTopDown\<close>: the costs of \<open>row\<close> are added to \<open>dat\<close>.\<close>

fun addRowCost :: "RowData \<Rightarrow> RowData \<Rightarrow> RowData" where
  "addRowCost (RowData a p l al loc par ch) row =
     RowData (a + RowData.allocations row) (p + RowData.peak row)
       (l + RowData.leaked row) (al + RowData.allocated row) loc par ch"

text \<open>
  Reading \<^verbatim>\<open>node->parent\<close> in the bottom-up forest \<open>heap\<close>: \<open>Some None\<close> is \<^verbatim>\<open>nullptr\<close>, \<open>Some (Some
  r)\<close> is a pointer to the row \<open>r\<close>. A pointer to no row of the forest has no defined
  target (\<open>None\<close>).
\<close>

fun deref :: "RowData list \<Rightarrow> address option \<Rightarrow> RowData option option" where
  "deref heap None = Some None"
| "deref heap (Some a) =
     (case rowAt heap a of None \<Rightarrow> None | Some r \<Rightarrow> Some (Some r))"

text \<open>
  The \<^verbatim>\<open>while (node)\<close> loop of \<^verbatim>\<open>buildTopDown\<close> for the leaf \<open>row\<close>. \<open>stack\<close> is the vector that
  the pointer \<open>stack\<close> refers to; the result is that vector after the rest of the loop.
  The loop follows the parent pointers and does not return when they form a cycle.
\<close>

partial_function (option) bubbleUp ::
  "RowData list \<Rightarrow> RowData \<Rightarrow> RowData option \<Rightarrow> RowData list \<Rightarrow> RowData list option" where
  "bubbleUp heap row node stack =
     (case node of
        None \<Rightarrow> Some stack
      | Some n \<Rightarrow>
          (let found = findByLocation n stack;
               stack' = (case found of
                           None \<Rightarrow> stack @ [RowData 0 0 0 0 (RowData.location n) None []]
                         | Some i \<Rightarrow> stack);
               i = (case found of None \<Rightarrow> length stack | Some i \<Rightarrow> i);
               dat = addRowCost (stack' ! i) row
           in do {
             next \<leftarrow> deref heap (RowData.parent n);
             ch \<leftarrow> bubbleUp heap row next (RowData.children dat);
             Some (stack'[i := setChildren dat ch])
           }))"

declare bubbleUp.simps [code]

text \<open>
  \<^verbatim>\<open>buildTopDown(bottomUpData, topDownData)\<close>. \<open>heap\<close> is the whole bottom-up forest, in which
  the parent pointers of the rows of \<open>bottomUpData\<close> are looked up; the result is
  \<^verbatim>\<open>*topDownData\<close> after the call.
\<close>

fun buildTopDown :: "RowData list \<Rightarrow> RowData list \<Rightarrow> RowData list \<Rightarrow> RowData list option" where
  "buildTopDown heap [] topDownData = Some topDownData"
| "buildTopDown heap (RowData a p l al loc par ch # rest) topDownData =
     do {
       topDownData' \<leftarrow>
         (if ch = []
          then bubbleUp heap (RowData a p l al loc par ch) (Some (RowData a p l al loc par ch))
                 topDownData
          else buildTopDown heap ch topDownData);
       buildTopDown heap rest topDownData'
     }"

definition toTopDownData :: "RowData list \<Rightarrow> RowData list option" where
  "toTopDownData bottomUpData =
     do {
       topRows \<leftarrow> buildTopDown bottomUpData bottomUpData [];
       Some (setParents topRows None)
     }"

section \<open>Notions used in the statements\<close>

subsection \<open>A sorting function\<close>

text \<open>
  Insertion sort in descending order of \<open>member\<close>: one function that \<open>sorts\<close>, used where a
  statement is evaluated on concrete data.
\<close>

fun insertDescending ::
  "(ChartMergeData \<Rightarrow> 64 word) \<Rightarrow> ChartMergeData \<Rightarrow> ChartMergeData list \<Rightarrow> ChartMergeData list" where
  "insertDescending member x [] = [x]"
| "insertDescending member x (y # ys) =
     (if member y < member x then x # y # ys else y # insertDescending member x ys)"

definition sortDescending :: sorter where
  "sortDescending member xs = foldr (insertDescending member) xs []"

subsection \<open>Charts\<close>

definition chartsOf :: "ParserData \<Rightarrow> ChartDataWithLabels list" where
  "chartsOf d = [consumedChartData d, allocatedChartData d, allocationsChartData d]"

definition rowCounts :: "ParserData \<Rightarrow> nat \<times> nat \<times> nat" where
  "rowCounts d = (length (rows (data (consumedChartData d))),
                  length (rows (data (allocatedChartData d))),
                  length (rows (data (allocationsChartData d))))"

text \<open>
  The bounds of a chart's rows: every row has at most 11 cost entries, the first row is the
  constructor's empty row, and every later row has an entry for the label id 0.
\<close>

definition chartRowsOk :: "ChartDataWithLabels \<Rightarrow> bool" where
  "chartRowsOk c =
     (list_all (\<lambda>r. length (cost r) \<le> 11) (rows (data c)) \<and>
      list_all (\<lambda>r. map_of (cost r) 0 \<noteq> None) (tl (rows (data c))) \<and>
      rows (data c) \<noteq> [] \<and> cost (hd (rows (data c))) = [])"

text \<open>
  No allocation of the state \<open>d\<close> has a leaf frame whose function resolves to the label \<open>t\<close>.
\<close>

definition noTotalFunction :: "string \<Rightarrow> ParserData \<Rightarrow> bool" where
  "noTotalFunction t d =
     (\<forall>a \<in> set (AccumulatedTraceData.allocations d).
        StringCache_func (stringCache d) (findIp d (ipIndex (findTrace d (traceIndex a))))
          \<noteq> Some t)"

text \<open>
  The same for a run: at every timestamp event, no allocation known at that moment resolves
  to \<open>t\<close> in the string cache as \<^verbatim>\<open>handleTimeStamp\<close> updates it.
\<close>

fun eventAvoidsTotal :: "string \<Rightarrow> ParserData \<Rightarrow> event \<Rightarrow> bool" where
  "eventAvoidsTotal t d (AllocationEvent base) = True"
| "eventAvoidsTotal t d (TimeStampEvent base oldStamp newStamp) =
     noTotalFunction t
       ((ingest base d)\<lparr>stringCache := StringCache_update (stringCache d) (strings base)\<rparr>)"

fun totalLabelUnused :: "sorter \<Rightarrow> string \<Rightarrow> ParserData \<Rightarrow> event list \<Rightarrow> bool" where
  "totalLabelUnused srt t d [] = True"
| "totalLabelUnused srt t d (e # es) =
     (eventAvoidsTotal t d e \<and>
      (case handleEvent srt d e of
         None \<Rightarrow> True
       | Some d' \<Rightarrow> totalLabelUnused srt t d' es))"

text \<open>
  The shape of a label table in which no function is named like the total label: the total
  label comes first and the ids count up from 0 in the order of insertion.
\<close>

definition labelsInv :: "string \<Rightarrow> (string, int) QHash \<Rightarrow> bool" where
  "labelsInv t ids =
     (ids \<noteq> [] \<and> fst (hd ids) = t \<and> distinct (map fst ids) \<and>
      map snd ids = map int [0..<length ids])"

subsection \<open>Costs\<close>

text \<open>
  The four cost fields \<open>allocations\<close>, \<open>peak\<close>, \<open>leaked\<close> and \<open>allocated\<close> as one value, added
  field by field. Every field is a \<^verbatim>\<open>uint64_t\<close>, so a sum of costs is the sum the program
  computes with \<^verbatim>\<open>+=\<close>: modulo \<open>2^64\<close> in every field.
\<close>

datatype Cost = Cost "64 word" "64 word" "64 word" "64 word"

instantiation Cost :: comm_monoid_add
begin

definition zero_Cost :: Cost where
  "zero_Cost = Cost 0 0 0 0"

fun plus_Cost :: "Cost \<Rightarrow> Cost \<Rightarrow> Cost" where
  "plus_Cost (Cost a p l al) (Cost a' p' l' al') = Cost (a + a') (p + p') (l + l') (al + al')"

instance
proof
  fix x y z :: Cost
  show "x + y + z = x + (y + z)"
    by (cases x; cases y; cases z) simp
  show "x + y = y + x"
    by (cases x; cases y) simp
  show "0 + x = x"
    by (cases x) (simp add: zero_Cost_def)
qed

end

definition allocationCost :: "Allocation \<Rightarrow> Cost" where
  "allocationCost a =
     Cost (Allocation.allocations a) (Allocation.peak a) (Allocation.leaked a)
       (Allocation.allocated a)"

definition rowCost :: "RowData \<Rightarrow> Cost" where
  "rowCost r =
     Cost (RowData.allocations r) (RowData.peak r) (RowData.leaked r) (RowData.allocated r)"

text \<open>The sum of the costs of the rows of one vector, for instance the top-level rows.\<close>

definition costSum :: "RowData list \<Rightarrow> Cost" where
  "costSum rws = sum_list (map rowCost rws)"

subsection \<open>Walks and forests\<close>

text \<open>
  The call stack of a trace index as the spec describes the walk: the locations of the
  frames from the leaf frame toward the root, ending with the first frame whose function
  is a stop index or with the last frame of the chain (the one whose parent index is 0).
  It is \<open>None\<close> when the chain is cyclic.
\<close>

partial_function (option) walk :: "ParserData \<Rightarrow> nat \<Rightarrow> LocationData list option" where
  "walk d traceIndex' =
     (if traceIndex' = 0 then Some []
      else
        (let trace = findTrace d traceIndex';
             ip = findIp d (ipIndex trace)
         in do {
           loc \<leftarrow> StringCache_location (stringCache d) ip;
           if isStopIndex d (functionIndex ip) then Some [loc]
           else do {
             rest \<leftarrow> walk d (parentIndex trace);
             Some (loc # rest)
           }
         }))"

declare walk.simps [code]

text \<open>The walk of the allocation \<open>a\<close> passes through the path \<open>p\<close> of locations.\<close>

definition passesThrough :: "ParserData \<Rightarrow> LocationData list \<Rightarrow> Allocation \<Rightarrow> bool" where
  "passesThrough d p a =
     (case walk d (traceIndex a) of
        None \<Rightarrow> False
      | Some q \<Rightarrow> prefix p q)"

text \<open>
  Every walk that \<^verbatim>\<open>mergeAllocations\<close> makes ends: no allocation of \<open>d\<close> starts a cyclic chain.
  This is the case exactly when \<^verbatim>\<open>mergeAllocations\<close> returns.
\<close>

definition walksEnd :: "ParserData \<Rightarrow> bool" where
  "walksEnd d = (\<forall>a \<in> set (AccumulatedTraceData.allocations d). walk d (traceIndex a) \<noteq> None)"

text \<open>
  No walk is a proper prefix of another: no allocation's walk ends at a frame through which
  the walk of another allocation goes on. The empty walk of an allocation without a trace
  does not count.
\<close>

definition noProperPrefix :: "ParserData \<Rightarrow> bool" where
  "noProperPrefix d =
     (\<forall>a \<in> set (AccumulatedTraceData.allocations d).
      \<forall>a' \<in> set (AccumulatedTraceData.allocations d).
        (case (walk d (traceIndex a), walk d (traceIndex a')) of
           (Some q, Some q') \<Rightarrow> q = [] \<or> \<not> strict_prefix q q'
         | _ \<Rightarrow> True))"

text \<open>
  Every row of a forest, at any depth, with its path: the locations from a top-level row
  down to the row itself. \<open>pre\<close> is the path of the row that owns the vector.
\<close>

fun rowsWithPaths :: "LocationData list \<Rightarrow> RowData list \<Rightarrow> (LocationData list \<times> RowData) list" where
  "rowsWithPaths pre [] = []"
| "rowsWithPaths pre (RowData a p l al loc par ch # rest) =
     (pre @ [loc], RowData a p l al loc par ch)
       # rowsWithPaths (pre @ [loc]) ch @ rowsWithPaths pre rest"

text \<open>Sibling sets: strictly sorted by location, and free of duplicate locations.\<close>

fun sortedRow :: "RowData \<Rightarrow> bool" where
  "sortedRow (RowData a p l al loc par ch) =
     (sorted_wrt (<) (map RowData.location ch) \<and> (\<forall>c \<in> set ch. sortedRow c))"

definition sortedForest :: "RowData list \<Rightarrow> bool" where
  "sortedForest rws =
     (sorted_wrt (<) (map RowData.location rws) \<and> (\<forall>r \<in> set rws. sortedRow r))"

fun dedupRow :: "RowData \<Rightarrow> bool" where
  "dedupRow (RowData a p l al loc par ch) =
     (distinct (map RowData.location ch) \<and> (\<forall>c \<in> set ch. dedupRow c))"

definition dedupForest :: "RowData list \<Rightarrow> bool" where
  "dedupForest rws =
     (distinct (map RowData.location rws) \<and> (\<forall>r \<in> set rws. dedupRow r))"

text \<open>
  The merge of one allocation with the walk \<open>path\<close> into the vector \<open>rws\<close>, by recursion on
  the walk and the vector: the effect of the loop \<open>mergeAllocation\<close> once the walk is known.
\<close>

fun mergeRows :: "Allocation \<Rightarrow> LocationData list \<Rightarrow> RowData list \<Rightarrow> RowData list" where
  "mergeRows a [] rws = rws"
| "mergeRows a (loc # path) [] =
     [RowData (Allocation.allocations a) (Allocation.peak a) (Allocation.leaked a)
        (Allocation.allocated a) loc None (mergeRows a path [])]"
| "mergeRows a (loc # path) (r # rs) =
     (if RowData.location r < loc then r # mergeRows a (loc # path) rs
      else if RowData.location r = loc
      then setChildren (addAllocation r a) (mergeRows a path (RowData.children r)) # rs
      else RowData (Allocation.allocations a) (Allocation.peak a) (Allocation.leaked a)
             (Allocation.allocated a) loc None (mergeRows a path [])
           # r # rs)"

text \<open>The row of a forest with a given path, searched by location level by level.\<close>

fun findRow :: "RowData list \<Rightarrow> LocationData list \<Rightarrow> RowData option" where
  "findRow rws [] = None"
| "findRow rws [loc] = find (\<lambda>r. RowData.location r = loc) rws"
| "findRow rws (loc # loc' # path) =
     (case find (\<lambda>r. RowData.location r = loc) rws of
        None \<Rightarrow> None
      | Some r \<Rightarrow> findRow (RowData.children r) (loc' # path))"

definition costAt :: "RowData list \<Rightarrow> LocationData list \<Rightarrow> Cost" where
  "costAt rws p = (case findRow rws p of None \<Rightarrow> 0 | Some r \<Rightarrow> rowCost r)"

subsection \<open>Parent chains and the inversion\<close>

text \<open>
  \<open>hasChain heap par chain\<close>: following the pointer \<open>par\<close> and then the parent pointers in the
  forest \<open>heap\<close> visits rows with the locations \<open>chain\<close>, in this order, and ends with
  \<^verbatim>\<open>nullptr\<close>.
\<close>

fun hasChain :: "RowData list \<Rightarrow> address option \<Rightarrow> LocationData list \<Rightarrow> bool" where
  "hasChain heap None chain = (chain = [])"
| "hasChain heap (Some a) [] = False"
| "hasChain heap (Some a) (loc # chain) =
     (case rowAt heap a of
        None \<Rightarrow> False
      | Some r \<Rightarrow> RowData.location r = loc \<and> hasChain heap (RowData.parent r) chain)"

text \<open>
  \<open>chainedRow heap anc r\<close>: the parent pointer of \<open>r\<close> leads through rows with the locations
  \<open>anc\<close> (the ancestors of \<open>r\<close>, nearest first), and the same holds below \<open>r\<close>.
\<close>

fun chainedRow :: "RowData list \<Rightarrow> LocationData list \<Rightarrow> RowData \<Rightarrow> bool" where
  "chainedRow heap anc (RowData a p l al loc par ch) =
     (hasChain heap par anc \<and> (\<forall>c \<in> set ch. chainedRow heap (loc # anc) c))"

text \<open>
  The leaves of a bottom-up forest (the rows without children) in the order in which
  \<^verbatim>\<open>buildTopDown\<close> reaches them, each with its chain: its own location followed by the
  locations of its ancestors up to the top-level row. \<open>anc\<close> holds the ancestors of the
  rows of the vector, nearest first.
\<close>

fun leafChains :: "LocationData list \<Rightarrow> RowData list \<Rightarrow> (RowData \<times> LocationData list) list" where
  "leafChains anc [] = []"
| "leafChains anc (RowData a p l al loc par ch # rest) =
     (if ch = [] then [(RowData a p l al loc par ch, loc # anc)]
      else leafChains (loc # anc) ch)
     @ leafChains anc rest"

text \<open>
  What the spec says is done for one leaf: at every level along the chain the node with the
  chain's location is looked up among the siblings, created at the end with all-zero costs
  when it is missing, the totals of the leaf \<open>row\<close> are added to it, and the next level is
  the node's children.
\<close>

fun addChain :: "RowData \<Rightarrow> LocationData list \<Rightarrow> RowData list \<Rightarrow> RowData list" where
  "addChain row [] stack = stack"
| "addChain row (loc # chain) [] =
     [setChildren (addRowCost (RowData 0 0 0 0 loc None []) row) (addChain row chain [])]"
| "addChain row (loc # chain) (r # rs) =
     (if RowData.location r = loc
      then setChildren (addRowCost r row) (addChain row chain (RowData.children r)) # rs
      else r # addChain row (loc # chain) rs)"

definition addLeaves :: "(RowData \<times> LocationData list) list \<Rightarrow> RowData list \<Rightarrow> RowData list" where
  "addLeaves leaves topDownData =
     foldl (\<lambda>stack (row, chain). addChain row chain stack) topDownData leaves"

text \<open>
  The sum of the costs of the leaves below a row (the row's own cost if it is a leaf), and
  rows whose cost is the sum of their children's costs wherever they have children.
\<close>

fun leafCost :: "RowData \<Rightarrow> Cost" where
  "leafCost (RowData a p l al loc par ch) =
     (if ch = [] then Cost a p l al else sum_list (map leafCost ch))"

fun balancedRow :: "RowData \<Rightarrow> bool" where
  "balancedRow (RowData a p l al loc par ch) =
     ((ch = [] \<or> Cost a p l al = sum_list (map rowCost ch)) \<and> (\<forall>c \<in> set ch. balancedRow c))"

subsection \<open>Concrete data\<close>

text \<open>
  A small trace store: the functions \<open>B\<close>, \<open>A\<close>, \<open>main\<close> and \<open>total\<close>, one instruction pointer
  for each, and the chains \<open>1 \<rightarrow> 2 \<rightarrow> 3\<close> (\<open>B\<close> called by \<open>A\<close> called by \<open>main\<close>),
  \<open>4 \<rightarrow> 5\<close> (\<open>B\<close> called by \<open>A\<close>, where the chain ends) and \<open>6\<close> (the function named \<open>total\<close>).
  \<open>main\<close> is the only stop index.
\<close>

definition exTraces :: "nat \<Rightarrow> TraceNode" where
  "exTraces i =
     (if i = 1 then \<lparr>ipIndex = 1, parentIndex = 2\<rparr>
      else if i = 2 then \<lparr>ipIndex = 2, parentIndex = 3\<rparr>
      else if i = 3 then \<lparr>ipIndex = 3, parentIndex = 0\<rparr>
      else if i = 4 then \<lparr>ipIndex = 1, parentIndex = 5\<rparr>
      else if i = 5 then \<lparr>ipIndex = 2, parentIndex = 0\<rparr>
      else if i = 6 then \<lparr>ipIndex = 4, parentIndex = 0\<rparr>
      else \<lparr>ipIndex = 0, parentIndex = 0\<rparr>)"

definition exIps :: "nat \<Rightarrow> InstructionPointer" where
  "exIps i = \<lparr>instructionPointer = 0, moduleIndex = 0,
               functionIndex = (if i \<le> 4 then i else 0), fileIndex = 0, line = 0\<rparr>"

definition exStrings :: "string list" where
  "exStrings = [''B'', ''A'', ''main'', ''total'']"

definition exAllocation :: "nat \<Rightarrow> 64 word \<Rightarrow> Allocation" where
  "exAllocation t c =
     \<lparr>Allocation.allocations = 1, Allocation.peak = c, Allocation.leaked = c,
      Allocation.allocated = c, traceIndex = t\<rparr>"

definition exBase :: "Allocation list \<Rightarrow> 64 word \<Rightarrow> AccumulatedTraceData" where
  "exBase as l =
     \<lparr>AccumulatedTraceData.allocations = as, strings = exStrings,
      AccumulatedTraceData.leaked = l, AccumulatedTraceData.peak = l,
      totalAllocated = l, totalAllocations = 2, totalTime = 10,
      findTrace = exTraces, findIp = exIps, isStopIndex = (\<lambda>f. f = 3)\<rparr>"

text \<open>
  The state of the parser after reading the store above with the allocations \<open>as\<close>: the string
  cache holds the string table.
\<close>

definition exData :: "Allocation list \<Rightarrow> ParserData" where
  "exData as =
     (ParserData_ctor ''total'' (exBase as 0))\<lparr>stringCache := \<lparr>m_strings = exStrings\<rparr>\<rparr>"

subsection \<open>Auxiliary functions of the proofs\<close>

text \<open>
  One round of the loop \<open>mergeAllocation\<close> on the vector \<open>rws\<close>, with the function \<open>g\<close> standing
  for what the later rounds do to the children of the row found or inserted.
\<close>

definition mergeLevel ::
  "Allocation \<Rightarrow> LocationData \<Rightarrow> (RowData list \<Rightarrow> RowData list) \<Rightarrow> RowData list \<Rightarrow> RowData list" where
  "mergeLevel a loc g rws =
     (let it = lower_bound (\<lambda>row. RowData.location row < loc) rws;
          rws' = (if it < length rws \<and> RowData.location (rws ! it) = loc
              then rws[it := addAllocation (rws ! it) a]
              else insert_at it
                     (RowData (Allocation.allocations a) (Allocation.peak a)
                        (Allocation.leaked a) (Allocation.allocated a)
                        loc None [])
                     rws)
      in rws'[it := setChildren (rws' ! it) (g (RowData.children (rws' ! it)))])"

text \<open>The row with the location \<open>loc\<close> after \<open>mergeRows a (loc # path)\<close>, and the children before.\<close>

definition mergedRow :: "Allocation \<Rightarrow> LocationData \<Rightarrow> LocationData list \<Rightarrow> RowData list \<Rightarrow> RowData" where
  "mergedRow a loc path rs =
     (case find (\<lambda>r. RowData.location r = loc) rs of
        None \<Rightarrow> RowData (Allocation.allocations a) (Allocation.peak a) (Allocation.leaked a)
                 (Allocation.allocated a) loc None (mergeRows a path [])
      | Some r \<Rightarrow> setChildren (addAllocation r a) (mergeRows a path (RowData.children r)))"

definition childrenAt :: "LocationData \<Rightarrow> RowData list \<Rightarrow> RowData list" where
  "childrenAt loc F =
     (case find (\<lambda>r. RowData.location r = loc) F of
        None \<Rightarrow> []
      | Some r \<Rightarrow> RowData.children r)"

text \<open>
  One round of the loop \<open>bubbleUp\<close> on the vector \<open>stack\<close> for the node \<open>n\<close>, with \<open>g\<close> standing for
  what the later rounds do to the children of the row found or appended.
\<close>

definition bubbleLevel ::
  "RowData \<Rightarrow> RowData \<Rightarrow> (RowData list \<Rightarrow> RowData list) \<Rightarrow> RowData list \<Rightarrow> RowData list" where
  "bubbleLevel row n g stack =
     (let found = findByLocation n stack;
          stack' = (case found of
                      None \<Rightarrow> stack @ [RowData 0 0 0 0 (RowData.location n) None []]
                    | Some i \<Rightarrow> stack);
          i = (case found of None \<Rightarrow> length stack | Some i \<Rightarrow> i);
          dat = addRowCost (stack' ! i) row
      in stack'[i := setChildren dat (g (RowData.children dat))])"

section \<open>Properties\<close>

subsection \<open>String resolution\<close>

lemma stringify_Some:
  "StringCache_stringify sc index =
     Some (if index = 0 \<or> index > length (m_strings sc) then [] else m_strings sc ! (index - 1))"
  by (auto simp: StringCache_stringify_def at_def)

lemma func_Some: "\<exists>f. StringCache_func sc ip = Some f"
  by (simp add: StringCache_func_def stringify_Some)

lemma location_Some: "\<exists>l. StringCache_location sc ip = Some l"
  by (simp add: StringCache_location_def StringCache_func_def StringCache_file_def
      StringCache_module_def stringify_Some)

lemma mergeChartAllocation_Some: "\<exists>m. mergeChartAllocation d md a = Some m"
  by (simp add: mergeChartAllocation_def StringCache_func_def stringify_Some Let_def)

lemma mergeChartData_Some: "\<exists>m. mergeChartData d md as = Some m"
proof (induction as arbitrary: md)
  case Nil
  show ?case by simp
next
  case (Cons a as)
  obtain m where "mergeChartAllocation d md a = Some m"
    using mergeChartAllocation_Some by blast
  then show ?case using Cons [of m] by simp
qed

lemma handleTimeStamp_Some: "\<exists>d'. handleTimeStamp srt d oldStamp newStamp = Some d'"
proof -
  let ?d1 = "d\<lparr>stringCache := StringCache_update (stringCache d) (strings d),
                 maxConsumedSinceLastTimeStamp :=
                   max (maxConsumedSinceLastTimeStamp d) (AccumulatedTraceData.leaked d)\<rparr>"
  obtain m where "mergeChartData ?d1 [] (AccumulatedTraceData.allocations ?d1) = Some m"
    using mergeChartData_Some by blast
  then show ?thesis
    by (simp add: handleTimeStamp_def Let_def split: prod.splits)
qed

subsection \<open>Sorting\<close>

lemma mset_insertDescending: "mset (insertDescending m x ys) = add_mset x (mset ys)"
  by (induction ys) auto

lemma set_insertDescending: "set (insertDescending m x ys) = insert x (set ys)"
  by (induction ys) auto

lemma sorted_insertDescending:
  "sorted_wrt (\<lambda>l r. \<not> m r > m l) ys \<Longrightarrow> sorted_wrt (\<lambda>l r. \<not> m r > m l) (insertDescending m x ys)"
  by (induction ys) (auto simp: set_insertDescending)

lemma sorts_sortDescending: "sorts sortDescending"
  unfolding sorts_def sortDescending_def
proof (intro allI conjI)
  fix m xs
  show "mset (foldr (insertDescending m) xs []) = mset xs"
    by (induction xs) (auto simp: mset_insertDescending)
  show "sorted_wrt (\<lambda>l r. \<not> m r > m l) (foldr (insertDescending m) xs [])"
    by (induction xs) (auto simp: sorted_insertDescending)
qed

lemma rows_addChartData:
  "length (rows (data (snd (addChartData srt n t md m dat c)))) = Suc (length (rows (data dat)))"
  by (simp add: addChartData_def Let_def split: prod.splits)

lemma handleTimeStamp_rows:
  assumes "handleTimeStamp srt d oldStamp newStamp = Some d'"
  shows "length (rows (data (consumedChartData d'))) = Suc (length (rows (data (consumedChartData d))))"
    and "length (rows (data (allocatedChartData d'))) = Suc (length (rows (data (allocatedChartData d))))"
    and "length (rows (data (allocationsChartData d'))) = Suc (length (rows (data (allocationsChartData d))))"
  using assms
  by (auto simp: handleTimeStamp_def Let_def addChartData_def split: prod.splits Option.bind_splits)

lemma ingest_charts [simp]:
  "consumedChartData (ingest b d) = consumedChartData d"
  "allocatedChartData (ingest b d) = allocatedChartData d"
  "allocationsChartData (ingest b d) = allocationsChartData d"
  by (simp_all add: ingest_def)

lemma handleAllocation_charts [simp]:
  "consumedChartData (handleAllocation d) = consumedChartData d"
  "allocatedChartData (handleAllocation d) = allocatedChartData d"
  "allocationsChartData (handleAllocation d) = allocationsChartData d"
  by (simp_all add: handleAllocation_def)

lemma handleEvent_Some: "\<exists>d'. handleEvent srt d e = Some d'"
  by (cases e) (simp_all add: handleTimeStamp_Some)

lemma handleEvents_Some: "\<exists>d'. handleEvents srt d es = Some d'"
proof (induction es arbitrary: d)
  case Nil show ?case by simp
next
  case (Cons e es)
  obtain d1 where "handleEvent srt d e = Some d1" using handleEvent_Some by blast
  then show ?case using Cons[of d1] by simp
qed

lemma handleEvent_rows:
  assumes "handleEvent srt d e = Some d'"
  shows "rowCounts d' = (if isTimeStamp e then (\<lambda>(a, b, c). (Suc a, Suc b, Suc c)) (rowCounts d) else rowCounts d)"
proof (cases e)
  case (AllocationEvent b)
  then show ?thesis using assms by (auto simp: rowCounts_def)
next
  case (TimeStampEvent b old new)
  then have "handleTimeStamp srt (ingest b d) old new = Some d'" using assms by simp
  from handleTimeStamp_rows[OF this] TimeStampEvent show ?thesis
    by (simp add: rowCounts_def)
qed

lemma handleEvents_rows:
  "handleEvents srt d es = Some d' \<Longrightarrow>
   rowCounts d' = (case rowCounts d of (a, b, c) \<Rightarrow>
      (a + length (filter isTimeStamp es), b + length (filter isTimeStamp es), c + length (filter isTimeStamp es)))"
proof (induction es arbitrary: d)
  case Nil then show ?case by (simp split: prod.splits)
next
  case (Cons e es)
  then obtain d1 where 1: "handleEvent srt d e = Some d1" and 2: "handleEvents srt d1 es = Some d'"
    by (auto split: Option.bind_splits)
  show ?case using Cons.IH[OF 2] handleEvent_rows[OF 1]
    by (auto split: prod.splits)
qed

lemma rowCounts_ctor: "rowCounts (ParserData_ctor t b) = (1, 1, 1)"
  by (simp add: rowCounts_def ParserData_ctor_def Let_def)

lemma length_QHash_insert: "length (QHash_insert k v h) \<le> Suc (length h)"
  unfolding QHash_insert_def by (induction h) auto

lemma keys_QHash_insert: "fst ` set (QHash_insert k v h) = insert k (fst ` set h)"
  by (simp add: QHash_insert_def AList.dom_update)

lemma addChartCosts_length:
  "length (snd (addChartCosts m md i ids c)) + i \<le> length c + max i (min 10 (length md))"
proof (induction m md i ids c rule: addChartCosts.induct)
  case (1 member mergedData i ids rowCost)
  show ?case
  proof (cases "i < min 10 (length mergedData) \<and> member (mergedData ! i) \<noteq> 0")
    case False
    then show ?thesis by (subst addChartCosts.simps) (auto simp: Let_def)
  next
    case True
    obtain ids' id where l: "labelId ids (function' (mergedData ! i)) = (ids', id)" by force
    have "length (snd (addChartCosts member mergedData (i + 1) ids' (QHash_insert id (member (mergedData ! i)) rowCost))) + (i + 1)
       \<le> length (QHash_insert id (member (mergedData ! i)) rowCost) + max (i + 1) (min 10 (length mergedData))"
      using 1[OF _ refl _ l[symmetric] refl] True by simp
    moreover have "addChartCosts member mergedData i ids rowCost = addChartCosts member mergedData (i + 1) ids' (QHash_insert id (member (mergedData ! i)) rowCost)"
      using True l by (subst addChartCosts.simps) (simp add: Let_def)
    ultimately show ?thesis using length_QHash_insert[of id "member (mergedData ! i)" rowCost] True
      by auto
  qed
qed

lemma addChartCosts_keys:
  "k \<in> fst ` set c \<Longrightarrow> k \<in> fst ` set (snd (addChartCosts m md i ids c))"
proof (induction m md i ids c rule: addChartCosts.induct)
  case (1 member mergedData i ids rowCost)
  show ?case
  proof (cases "i < min 10 (length mergedData) \<and> member (mergedData ! i) \<noteq> 0")
    case False
    then show ?thesis using 1(2) by (subst addChartCosts.simps) (auto simp: Let_def)
  next
    case True
    obtain ids' id where l: "labelId ids (function' (mergedData ! i)) = (ids', id)" by force
    have "k \<in> fst ` set (snd (addChartCosts member mergedData (i + 1) ids' (QHash_insert id (member (mergedData ! i)) rowCost)))"
      using 1(1)[OF _ refl _ l[symmetric] refl] True 1(2) by (simp add: keys_QHash_insert)
    moreover have "addChartCosts member mergedData i ids rowCost = addChartCosts member mergedData (i + 1) ids' (QHash_insert id (member (mergedData ! i)) rowCost)"
      using True l by (subst addChartCosts.simps) (simp add: Let_def)
    ultimately show ?thesis by simp
  qed
qed

lemma addChartData_rowsOk:
  assumes "chartRowsOk dat"
  shows "chartRowsOk (snd (addChartData srt n t md m dat c))"
proof -
  let ?md = "srt m md"
  let ?c0 = "QHash_insert (0::int) c []"
  obtain ids' rc where r: "addChartCosts m ?md 0 (labelIds dat) ?c0 = (ids', rc)" by force
  have "length rc + 0 \<le> length ?c0 + max 0 (min 10 (length ?md))"
    using addChartCosts_length[of m ?md 0 "labelIds dat" ?c0] r by simp
  then have 1: "length rc \<le> 11" by (simp add: QHash_insert_def)
  have "0 \<in> fst ` set rc"
    using addChartCosts_keys[of 0 ?c0 m ?md 0 "labelIds dat"] r by (simp add: QHash_insert_def)
  then have 2: "map_of rc 0 \<noteq> None" by (simp add: map_of_eq_None_iff)
  show ?thesis using assms 1 2 r
    by (cases "rows (data dat)") (auto simp: addChartData_def Let_def chartRowsOk_def)
qed

lemma handleTimeStamp_rowsOk:
  assumes "handleTimeStamp srt d oldStamp newStamp = Some d'"
    and "chartRowsOk (consumedChartData d)" "chartRowsOk (allocatedChartData d)" "chartRowsOk (allocationsChartData d)"
  shows "chartRowsOk (consumedChartData d') \<and> chartRowsOk (allocatedChartData d') \<and> chartRowsOk (allocationsChartData d')"
  using assms addChartData_rowsOk
  by (auto simp: handleTimeStamp_def Let_def split: prod.splits Option.bind_splits)
     (metis snd_conv)+

lemma handleEvent_rowsOk:
  assumes "handleEvent srt d e = Some d'"
    and "chartRowsOk (consumedChartData d) \<and> chartRowsOk (allocatedChartData d) \<and> chartRowsOk (allocationsChartData d)"
  shows "chartRowsOk (consumedChartData d') \<and> chartRowsOk (allocatedChartData d') \<and> chartRowsOk (allocationsChartData d')"
proof (cases e)
  case (AllocationEvent b)
  then show ?thesis using assms by auto
next
  case (TimeStampEvent b old new)
  then have "handleTimeStamp srt (ingest b d) old new = Some d'" using assms by simp
  from handleTimeStamp_rowsOk[OF this] assms(2) show ?thesis by simp
qed

lemma handleEvents_rowsOk:
  "handleEvents srt d es = Some d' \<Longrightarrow>
   chartRowsOk (consumedChartData d) \<and> chartRowsOk (allocatedChartData d) \<and> chartRowsOk (allocationsChartData d) \<Longrightarrow>
   chartRowsOk (consumedChartData d') \<and> chartRowsOk (allocatedChartData d') \<and> chartRowsOk (allocationsChartData d')"
proof (induction es arbitrary: d)
  case Nil then show ?case by simp
next
  case (Cons e es)
  then obtain d1 where 1: "handleEvent srt d e = Some d1" and 2: "handleEvents srt d1 es = Some d'"
    by (auto split: Option.bind_splits)
  show ?case using Cons.IH[OF 2 handleEvent_rowsOk[OF 1 Cons.prems(2)]] .
qed

lemma ctor_rowsOk:
  "chartRowsOk (consumedChartData (ParserData_ctor t b))"
  "chartRowsOk (allocatedChartData (ParserData_ctor t b))"
  "chartRowsOk (allocationsChartData (ParserData_ctor t b))"
  by (simp_all add: ParserData_ctor_def chartRowsOk_def Let_def)

lemma labelsInv_lookup:
  assumes "labelsInv t ids" "map_of ids f = Some i"
  shows "0 \<le> i \<and> i < int (length ids) \<and> ids ! nat i = (f, i)"
proof -
  from assms(2) have "(f, i) \<in> set ids" by (rule map_of_SomeD)
  then obtain k where k: "k < length ids" "ids ! k = (f, i)" by (auto simp: in_set_conv_nth)
  have "map snd ids ! k = map int [0..<length ids] ! k" using assms(1) by (simp add: labelsInv_def)
  then have "i = int k" using k by simp
  then show ?thesis using k by simp
qed

lemma labelsInv_hd:
  assumes "labelsInv t ids"
  shows "\<exists>rest. ids = (t, 0) # rest"
proof -
  from assms obtain b rest where ids: "ids = (t, b) # rest"
    by (cases ids) (auto simp: labelsInv_def)
  have "map snd ids ! 0 = map int [0..<length ids] ! 0"
    using assms by (simp add: labelsInv_def)
  then have "b = 0" using ids by (simp add: nth_append upt_conv_Cons del: upt_Suc)
  then show ?thesis using ids by simp
qed

lemma labelsInv_total: "labelsInv t ids \<Longrightarrow> map_of ids t = Some 0"
  using labelsInv_hd by fastforce

lemma labelsInv_pos:
  assumes "labelsInv t ids" "map_of ids f = Some i" "f \<noteq> t"
  shows "1 \<le> i"
proof -
  from labelsInv_lookup[OF assms(1,2)] have i: "0 \<le> i" "ids ! nat i = (f, i)" by auto
  have "ids ! 0 = (t, 0)" using labelsInv_hd[OF assms(1)] by auto
  then have "i \<noteq> 0" using i assms(3) by auto
  then show ?thesis using i by simp
qed

lemma labelsInv_inj:
  assumes "labelsInv t ids" "map_of ids f = Some i" "map_of ids g = Some i"
  shows "f = g"
  using labelsInv_lookup[OF assms(1,2)] labelsInv_lookup[OF assms(1,3)] by simp

lemma update_append_new: "k \<notin> fst ` set h \<Longrightarrow> AList.update k v (h @ [(k, w)]) = h @ [(k, v)]"
  by (induction h) auto

lemma labelId_step:
  assumes "labelsInv t ids" "f \<noteq> t"
  shows "labelId ids f = (case map_of ids f of
            Some i \<Rightarrow> (ids, i)
          | None \<Rightarrow> (ids @ [(f, int (length ids))], int (length ids)))"
proof (cases "map_of ids f")
  case None
  then have "f \<notin> fst ` set ids" by (simp add: map_of_eq_None_iff)
  then show ?thesis using None
    by (simp add: labelId_def QHash_subscript_def QHash_insert_def QHash_size_def update_append_new)
next
  case (Some i)
  with labelsInv_pos[OF assms(1) Some assms(2)] show ?thesis
    by (simp add: labelId_def QHash_subscript_def)
qed

lemma labelId_inv:
  assumes "labelsInv t ids" "f \<noteq> t"
  shows "labelsInv t (fst (labelId ids f))"
proof (cases "map_of ids f")
  case None
  then have "f \<notin> fst ` set ids" by (simp add: map_of_eq_None_iff)
  then show ?thesis using assms None
    by (cases ids) (auto simp: labelId_step labelsInv_def)
next
  case (Some i)
  then show ?thesis using assms by (simp add: labelId_step)
qed

lemma addChartCosts_labelsInv:
  "labelsInv t ids \<Longrightarrow> \<forall>x \<in> set md. function' x \<noteq> t \<Longrightarrow>
   labelsInv t (fst (addChartCosts m md i ids c))"
proof (induction m md i ids c rule: addChartCosts.induct)
  case (1 member mergedData i ids rowCost)
  show ?case
  proof (cases "i < min 10 (length mergedData) \<and> member (mergedData ! i) \<noteq> 0")
    case False
    then show ?thesis using 1(2) by (subst addChartCosts.simps) (auto simp: Let_def)
  next
    case True
    obtain ids' id where l: "labelId ids (function' (mergedData ! i)) = (ids', id)" by force
    have ne: "function' (mergedData ! i) \<noteq> t" using True 1(3) by simp
    have "labelsInv t ids'" using labelId_inv[OF 1(2) ne] l by simp
    then have "labelsInv t (fst (addChartCosts member mergedData (i + 1) ids' (QHash_insert id (member (mergedData ! i)) rowCost)))"
      using 1(1)[OF _ refl _ l[symmetric] refl] True 1(3) by simp
    moreover have "addChartCosts member mergedData i ids rowCost = addChartCosts member mergedData (i + 1) ids' (QHash_insert id (member (mergedData ! i)) rowCost)"
      using True l by (subst addChartCosts.simps) (simp add: Let_def)
    ultimately show ?thesis by simp
  qed
qed

lemma addChartData_labelsInv:
  assumes "sorts srt" "labelsInv t (labelIds dat)" "\<forall>x \<in> set md. function' x \<noteq> t"
  shows "labelsInv t (labelIds (snd (addChartData srt n tt md m dat c)))"
    and "set (fst (addChartData srt n tt md m dat c)) = set md"
proof -
  have s: "set (srt m md) = set md" using assms(1) by (metis sorts_def set_mset_mset)
  obtain ids' rc where r: "addChartCosts m (srt m md) 0 (labelIds dat) (QHash_insert 0 c []) = (ids', rc)" by force
  have "labelsInv t ids'"
    using addChartCosts_labelsInv[of t "labelIds dat" "srt m md" m 0 "QHash_insert 0 c []"] assms(2,3) s r by simp
  then show "labelsInv t (labelIds (snd (addChartData srt n tt md m dat c)))"
    using r by (simp add: addChartData_def Let_def)
  show "set (fst (addChartData srt n tt md m dat c)) = set md"
    using s by (simp add: addChartData_def Let_def split: prod.splits)
qed

lemma mergeChartAllocation_cases:
  assumes "mergeChartAllocation d md a = Some md'"
  obtains fn it e where
    "StringCache_func (stringCache d) (findIp d (ipIndex (findTrace d (traceIndex a)))) = Some fn"
    "it < length md" "function' e = function' (md ! it)" "md' = md[it := e]"
  | fn it e where
    "StringCache_func (stringCache d) (findIp d (ipIndex (findTrace d (traceIndex a)))) = Some fn"
    "function' e = fn" "md' = insert_at it e md"
proof -
  from assms obtain fn where fn: "StringCache_func (stringCache d) (findIp d (ipIndex (findTrace d (traceIndex a)))) = Some fn"
    by (cases "StringCache_func (stringCache d) (findIp d (ipIndex (findTrace d (traceIndex a))))")
       (simp_all add: mergeChartAllocation_def)
  let ?it = "lower_bound (\<lambda>e. function' e < fn) md"
  let ?e1 = "(md ! ?it)
                    \<lparr>ChartMergeData.allocated :=
                       ChartMergeData.allocated (md ! ?it) + Allocation.allocated a,
                     ChartMergeData.allocations :=
                       ChartMergeData.allocations (md ! ?it) + Allocation.allocations a,
                     consumed := consumed (md ! ?it) + Allocation.leaked a\<rparr>"
  let ?e2 = "\<lparr>function' = fn, consumed = Allocation.leaked a,
                     ChartMergeData.allocations = Allocation.allocations a,
                     ChartMergeData.allocated = Allocation.allocated a\<rparr>"
  show thesis
  proof (cases "?it < length md \<and> function' (md ! ?it) = fn")
    case True
    with assms fn have "md' = md[?it := ?e1]"
      by (simp add: mergeChartAllocation_def Let_def)
    moreover have "function' ?e1 = function' (md ! ?it)" by simp
    ultimately show thesis using that(1)[OF fn, of ?it ?e1] True by blast
  next
    case False
    with assms fn have "md' = insert_at ?it ?e2 md"
      by (simp add: mergeChartAllocation_def Let_def)
    moreover have "function' ?e2 = fn" by simp
    ultimately show thesis using that(2)[OF fn, of ?e2 ?it] by blast
  qed
qed

lemma mergeChartAllocation_functions:
  assumes "mergeChartAllocation d md a = Some md'"
  shows "function' ` set md' \<subseteq> function' ` set md \<union>
     {f. StringCache_func (stringCache d) (findIp d (ipIndex (findTrace d (traceIndex a)))) = Some f}"
  using assms
proof (cases rule: mergeChartAllocation_cases)
  case (1 fn it e)
  then have "map function' md' = map function' md"
    by (simp add: map_update list_update_same_conv)
  then have "function' ` set md' = function' ` set md" by (metis set_map)
  then show ?thesis by blast
next
  case (2 fn it e)
  have "set md' = insert e (set (take it md) \<union> set (drop it md))"
    unfolding 2(3) insert_at_def by simp
  also have "set (take it md) \<union> set (drop it md) = set md"
    by (metis append_take_drop_id set_append)
  finally have "set md' = insert e (set md)" .
  then show ?thesis using 2(1,2) by auto
qed

lemma mergeChartData_functions:
  "mergeChartData d md as = Some md' \<Longrightarrow>
   function' ` set md' \<subseteq> function' ` set md \<union>
     {f. \<exists>a \<in> set as. StringCache_func (stringCache d) (findIp d (ipIndex (findTrace d (traceIndex a)))) = Some f}"
proof (induction as arbitrary: md)
  case Nil then show ?case by simp
next
  case (Cons a as)
  then obtain m1 where 1: "mergeChartAllocation d md a = Some m1" and 2: "mergeChartData d m1 as = Some md'"
    by (auto split: Option.bind_splits)
  have "function' ` set md' \<subseteq> function' ` set m1 \<union>
     {f. \<exists>a \<in> set as. StringCache_func (stringCache d) (findIp d (ipIndex (findTrace d (traceIndex a)))) = Some f}"
    using Cons.IH[OF 2] .
  moreover note mergeChartAllocation_functions[OF 1]
  ultimately show ?case by auto
qed

lemma handleTimeStamp_labelsInv:
  assumes srt: "sorts srt"
    and h: "handleTimeStamp srt d oldStamp newStamp = Some d'"
    and nt: "noTotalFunction t (d\<lparr>stringCache := StringCache_update (stringCache d) (strings d)\<rparr>)"
    and inv: "\<forall>c \<in> set (chartsOf d). labelsInv t (labelIds c)"
  shows "\<forall>c \<in> set (chartsOf d'). labelsInv t (labelIds c)"
proof -
  let ?d1 = "d\<lparr>stringCache := StringCache_update (stringCache d) (strings d),
                 maxConsumedSinceLastTimeStamp :=
                   max (maxConsumedSinceLastTimeStamp d) (AccumulatedTraceData.leaked d)\<rparr>"
  obtain md where md: "mergeChartData ?d1 [] (AccumulatedTraceData.allocations ?d1) = Some md"
    using mergeChartData_Some by blast
  have f0: "\<forall>x \<in> set md. function' x \<noteq> t"
    using mergeChartData_functions[OF md] nt by (auto simp: noTotalFunction_def)
  let ?tt = "totalTime ?d1"
  let ?r1 = "addChartData srt newStamp ?tt md consumed (consumedChartData ?d1) (maxConsumedSinceLastTimeStamp ?d1)"
  let ?r2 = "addChartData srt newStamp ?tt (fst ?r1) ChartMergeData.allocated (allocatedChartData ?d1) (totalAllocated ?d1)"
  let ?r3 = "addChartData srt newStamp ?tt (fst ?r2) ChartMergeData.allocations (allocationsChartData ?d1) (totalAllocations ?d1)"
  have d': "d' = ?d1\<lparr>consumedChartData := snd ?r1, allocatedChartData := snd ?r2,
                      allocationsChartData := snd ?r3, maxConsumedSinceLastTimeStamp := 0\<rparr>"
    using h md by (simp add: handleTimeStamp_def Let_def split: prod.splits)
  have i1: "labelsInv t (labelIds (consumedChartData ?d1))"
    and i2: "labelsInv t (labelIds (allocatedChartData ?d1))"
    and i3: "labelsInv t (labelIds (allocationsChartData ?d1))"
    using inv by (simp_all add: chartsOf_def)
  have a1: "labelsInv t (labelIds (snd ?r1))" and s1: "set (fst ?r1) = set md"
    using addChartData_labelsInv[OF srt i1 f0] by blast+
  have f1: "\<forall>x \<in> set (fst ?r1). function' x \<noteq> t" using f0 s1 by simp
  have a2: "labelsInv t (labelIds (snd ?r2))" and s2: "set (fst ?r2) = set (fst ?r1)"
    using addChartData_labelsInv[OF srt i2 f1] by blast+
  have f2: "\<forall>x \<in> set (fst ?r2). function' x \<noteq> t" using f1 s2 by simp
  have a3: "labelsInv t (labelIds (snd ?r3))"
    using addChartData_labelsInv[OF srt i3 f2] by blast
  show ?thesis unfolding d' using a1 a2 a3 by (simp add: chartsOf_def)
qed

lemma chartsOf_ingest [simp]: "chartsOf (ingest b d) = chartsOf d"
  by (simp add: chartsOf_def)

lemma chartsOf_handleAllocation [simp]: "chartsOf (handleAllocation d) = chartsOf d"
  by (simp add: chartsOf_def)

lemma handleEvent_labelsInv:
  assumes "sorts srt" "handleEvent srt d e = Some d'" "eventAvoidsTotal t d e"
    "\<forall>c \<in> set (chartsOf d). labelsInv t (labelIds c)"
  shows "\<forall>c \<in> set (chartsOf d'). labelsInv t (labelIds c)"
proof (cases e)
  case (AllocationEvent b)
  then show ?thesis using assms by auto
next
  case (TimeStampEvent b old new)
  then have h: "handleTimeStamp srt (ingest b d) old new = Some d'" using assms by simp
  have nt: "noTotalFunction t ((ingest b d)\<lparr>stringCache := StringCache_update (stringCache (ingest b d)) (strings (ingest b d))\<rparr>)"
    using assms(3) TimeStampEvent by (simp add: ingest_def)
  show ?thesis using handleTimeStamp_labelsInv[OF assms(1) h nt] assms(4) by simp
qed

lemma handleEvents_labelsInv:
  "sorts srt \<Longrightarrow> handleEvents srt d es = Some d' \<Longrightarrow> totalLabelUnused srt t d es \<Longrightarrow>
   \<forall>c \<in> set (chartsOf d). labelsInv t (labelIds c) \<Longrightarrow>
   \<forall>c \<in> set (chartsOf d'). labelsInv t (labelIds c)"
proof (induction es arbitrary: d)
  case Nil then show ?case by simp
next
  case (Cons e es)
  then obtain d1 where 1: "handleEvent srt d e = Some d1" and 2: "handleEvents srt d1 es = Some d'"
    by (auto split: Option.bind_splits)
  have 3: "eventAvoidsTotal t d e" and 4: "totalLabelUnused srt t d1 es"
    using Cons.prems(3) 1 by simp_all
  show ?case
    using Cons.IH[OF Cons.prems(1) 2 4 handleEvent_labelsInv[OF Cons.prems(1) 1 3 Cons.prems(4)]] .
qed

lemma ctor_labelsInv: "\<forall>c \<in> set (chartsOf (ParserData_ctor t b)). labelsInv t (labelIds c)"
  by (simp add: chartsOf_def ParserData_ctor_def Let_def labelsInv_def QHash_insert_def)

lemma labelsInv_ids: "labelsInv t ids \<Longrightarrow> snd ` set ids = int ` {0..<length ids}"
  by (metis labelsInv_def set_map set_upt)

subsection \<open>Evaluation on the concrete data\<close>

lemmas chart_eval =
  handleTimeStamp_def ingest_def ParserData_ctor_def mergeChartAllocation_def
  StringCache_func_def StringCache_stringify_def StringCache_update_def at_def
  exTraces_def exIps_def exStrings_def exAllocation_def exBase_def
  lower_bound_def insert_at_def addChartData_def addChartCosts.simps labelId_def
  QHash_insert_def QHash_subscript_def QHash_size_def sortDescending_def Let_def

subsection \<open>Claims on the charts\<close>

text \<open>
  Claim C6, as amended. The constructor puts one empty row into every chart and every
  timestamp event appends one row, so after any sequence of events each of the three charts
  has one row more than the number of timestamp events handled. The run always returns.
\<close>

theorem C6_rows_one_more_than_timestamps:
  "\<exists>d'. handleEvents srt (ParserData_ctor totalLabel base) events = Some d'
     \<and> length (rows (data (consumedChartData d'))) = Suc (length (filter isTimeStamp events))
     \<and> length (rows (data (allocatedChartData d'))) = Suc (length (filter isTimeStamp events))
     \<and> length (rows (data (allocationsChartData d'))) = Suc (length (filter isTimeStamp events))"
proof -
  obtain d' where 1: "handleEvents srt (ParserData_ctor totalLabel base) events = Some d'"
    using handleEvents_Some by blast
  from handleEvents_rows [OF 1] have
    "rowCounts d' = (Suc (length (filter isTimeStamp events)),
       Suc (length (filter isTimeStamp events)), Suc (length (filter isTimeStamp events)))"
    by (simp add: rowCounts_ctor)
  then show ?thesis using 1 by (simp add: rowCounts_def)
qed

theorem C6_rows_witness:
  "\<exists>d'. handleEvents sortDescending (ParserData_ctor ''total'' (exBase [] 0))
            [AllocationEvent (exBase [exAllocation 1 2] 2),
             TimeStampEvent (exBase [exAllocation 1 2] 2) 0 10] = Some d'
     \<and> length (rows (data (consumedChartData d'))) = 2
     \<and> length (rows (data (allocatedChartData d'))) = 2
     \<and> length (rows (data (allocationsChartData d'))) = 2"
  using C6_rows_one_more_than_timestamps
    [of sortDescending "''total''" "exBase [] 0"
        "[AllocationEvent (exBase [exAllocation 1 2] 2),
          TimeStampEvent (exBase [exAllocation 1 2] 2) 0 10]"]
  by (simp add: numeral_2_eq_2)

text \<open>
  The claim as stated fails on a pass with one timestamp event, the final one of the trace
  (\<open>newStamp = totalTime = 10\<close>): the live-bytes chart then has two rows.
\<close>

theorem C6_counterexample:
  "map_option (\<lambda>d'. length (rows (data (consumedChartData d'))))
     (handleEvents sortDescending (ParserData_ctor ''total'' (exBase [] 0))
        [TimeStampEvent (exBase [exAllocation 1 2] 2) 0 10]) = Some 2
   \<and> length (filter isTimeStamp [TimeStampEvent (exBase [exAllocation 1 2] 2) 0 10]) = 1"
  by (simp add: chart_eval)

text \<open>
  Claim C7, as amended. After any sequence of events, in each of the three charts every row
  has at most 11 cost entries, and every row but the first has an entry for the label id 0;
  the first row is the constructor's row, which has no entry at all.
\<close>

theorem C7_row_bounds:
  "\<exists>d'. handleEvents srt (ParserData_ctor totalLabel base) events = Some d'
     \<and> chartRowsOk (consumedChartData d')
     \<and> chartRowsOk (allocatedChartData d')
     \<and> chartRowsOk (allocationsChartData d')"
proof -
  obtain d' where 1: "handleEvents srt (ParserData_ctor totalLabel base) events = Some d'"
    using handleEvents_Some by blast
  from handleEvents_rowsOk [OF 1] ctor_rowsOk show ?thesis using 1 by simp
qed

theorem C7_row_bounds_witness:
  "\<exists>d'. handleEvents sortDescending (ParserData_ctor ''total'' (exBase [] 0))
            [TimeStampEvent (exBase [exAllocation 1 2] 2) 0 10] = Some d'
     \<and> chartRowsOk (consumedChartData d')
     \<and> chartRowsOk (allocatedChartData d')
     \<and> chartRowsOk (allocationsChartData d')"
  using C7_row_bounds
    [of sortDescending "''total''" "exBase [] 0"
        "[TimeStampEvent (exBase [exAllocation 1 2] 2) 0 10]"]
  by simp

text \<open>
  The claim as stated fails on the first row of a chart: after the pass it is still the
  row that the constructor made, with no cost entry and so none for the label id 0.
\<close>

theorem C7_counterexample:
  "map_option (\<lambda>d'. map_of (cost (hd (rows (data (consumedChartData d'))))) 0)
     (handleEvents sortDescending (ParserData_ctor ''total'' (exBase [] 0))
        [TimeStampEvent (exBase [exAllocation 1 2] 2) 0 10]) = Some None"
  by (simp add: chart_eval)

text \<open>
  Claim C8, evaluated where the code departs from it. The store holds an allocation with 5
  live bytes in a function named \<open>total\<close> and one with 2 live bytes in \<open>B\<close>; the live bytes of
  the process are 7, and so is the watermark. The label of the function \<open>total\<close> is looked
  up in the table, found with the id 0 of the total label, and reassigned
  \<^verbatim>\<open>labelIds.size() - 1\<close>, which is 0 again; its cost is then inserted at the id 0 over the
  watermark. The row of the live-bytes chart ends with 5 at the id 0 instead of 7, and with
  no entry of its own for the function \<open>total\<close>.
\<close>

theorem C8_total_entry_overwritten:
  "map_option (\<lambda>d'. cost (last (rows (data (consumedChartData d')))))
     (handleEvents sortDescending (ParserData_ctor ''total'' (exBase [] 0))
        [TimeStampEvent (exBase [exAllocation 6 5, exAllocation 1 2] 7) 0 10])
     = Some [(0, 5), (1, 2)]
   \<and> max 0 (AccumulatedTraceData.leaked (exBase [exAllocation 6 5, exAllocation 1 2] 7)) = 7"
  by (simp add: chart_eval)

text \<open>
  Claim C10. Let the label passed to the constructor be \<open>totalLabel\<close>, let \<open>srt\<close> sort, and
  let no allocation resolve to \<open>totalLabel\<close> at any timestamp event of the run. Then in each of
  the three label tables after the run: distinct names have distinct ids; the id of every
  name other than \<open>totalLabel\<close> is at least 1; the id 0 belongs to \<open>totalLabel\<close> and to no other
  name; and the lookup-and-assign step for a name other than \<open>totalLabel\<close> leaves the table as
  it is and yields the name's id when the name is present, and otherwise adds the name with
  the least integer from 0 on that is not an id of the table.
\<close>

theorem C10_label_ids:
  assumes "sorts srt"
    and "totalLabelUnused srt totalLabel (ParserData_ctor totalLabel base) events"
    and "handleEvents srt (ParserData_ctor totalLabel base) events = Some d'"
    and "c \<in> set (chartsOf d')"
  shows "(\<forall>f g i. map_of (labelIds c) f = Some i \<and> map_of (labelIds c) g = Some i \<longrightarrow> f = g)
       \<and> (\<forall>f i. map_of (labelIds c) f = Some i \<and> f \<noteq> totalLabel \<longrightarrow> 1 \<le> i)
       \<and> (\<forall>f. map_of (labelIds c) f = Some 0 \<longleftrightarrow> f = totalLabel)
       \<and> (\<forall>f. f \<noteq> totalLabel \<longrightarrow>
             (case map_of (labelIds c) f of
                Some i \<Rightarrow> labelId (labelIds c) f = (labelIds c, i)
              | None \<Rightarrow> \<exists>i. labelId (labelIds c) f = (labelIds c @ [(f, i)], i)
                   \<and> i \<notin> snd ` set (labelIds c)
                   \<and> (\<forall>j. 0 \<le> j \<and> j < i \<longrightarrow> j \<in> snd ` set (labelIds c))))"
proof -
  have inv: "labelsInv totalLabel (labelIds c)"
    using handleEvents_labelsInv [OF assms(1) assms(3) assms(2) ctor_labelsInv] assms(4)
    by blast
  have 1: "\<forall>f g i. map_of (labelIds c) f = Some i \<and> map_of (labelIds c) g = Some i \<longrightarrow> f = g"
    using labelsInv_inj [OF inv] by blast
  have 2: "\<forall>f i. map_of (labelIds c) f = Some i \<and> f \<noteq> totalLabel \<longrightarrow> 1 \<le> i"
    using labelsInv_pos [OF inv] by blast
  have 3: "\<forall>f. map_of (labelIds c) f = Some 0 \<longleftrightarrow> f = totalLabel"
    using labelsInv_total [OF inv] 2 by force
  have 4: "(case map_of (labelIds c) f of
                Some i \<Rightarrow> labelId (labelIds c) f = (labelIds c, i)
              | None \<Rightarrow> \<exists>i. labelId (labelIds c) f = (labelIds c @ [(f, i)], i)
                   \<and> i \<notin> snd ` set (labelIds c)
                   \<and> (\<forall>j. 0 \<le> j \<and> j < i \<longrightarrow> j \<in> snd ` set (labelIds c)))"
    if "f \<noteq> totalLabel" for f
  proof (cases "map_of (labelIds c) f")
    case (Some i)
    then show ?thesis using labelId_step [OF inv that] by simp
  next
    case None
    have "int (length (labelIds c)) \<notin> snd ` set (labelIds c)"
      unfolding labelsInv_ids [OF inv] by auto
    moreover have "\<forall>j. 0 \<le> j \<and> j < int (length (labelIds c)) \<longrightarrow> j \<in> snd ` set (labelIds c)"
      unfolding labelsInv_ids [OF inv]
      by (metis atLeastLessThan_iff image_eqI int_nat_eq nat_less_iff zero_le)
    ultimately show ?thesis using None labelId_step [OF inv that] by auto
  qed
  show ?thesis using 1 2 3 4 by blast
qed

text \<open>
  The hypotheses of C10 hold on a run of two timestamp events over the functions \<open>B\<close> and
  \<open>A\<close>; the live-bytes table then maps only the total label to 0.
\<close>

theorem C10_label_ids_witness:
  "sorts sortDescending
   \<and> totalLabelUnused sortDescending ''total'' (ParserData_ctor ''total'' (exBase [] 0))
        [TimeStampEvent (exBase [exAllocation 1 2] 2) 0 1,
         TimeStampEvent (exBase [exAllocation 1 2, exAllocation 2 1] 3) 1 10]
   \<and> (\<exists>d'. handleEvents sortDescending (ParserData_ctor ''total'' (exBase [] 0))
              [TimeStampEvent (exBase [exAllocation 1 2] 2) 0 1,
               TimeStampEvent (exBase [exAllocation 1 2, exAllocation 2 1] 3) 1 10] = Some d'
         \<and> consumedChartData d' \<in> set (chartsOf d')
         \<and> (\<forall>f. map_of (labelIds (consumedChartData d')) f = Some 0 \<longleftrightarrow> f = ''total''))"
proof -
  let ?d = "ParserData_ctor ''total'' (exBase [] 0)"
  let ?es = "[TimeStampEvent (exBase [exAllocation 1 2] 2) 0 1,
              TimeStampEvent (exBase [exAllocation 1 2, exAllocation 2 1] 3) 1 10]"
  have pre: "totalLabelUnused sortDescending ''total'' ?d ?es"
    by (simp add: noTotalFunction_def chart_eval)
  obtain d' where run: "handleEvents sortDescending ?d ?es = Some d'"
    using handleEvents_Some by blast
  have mem: "consumedChartData d' \<in> set (chartsOf d')"
    by (simp add: chartsOf_def)
  from C10_label_ids [OF sorts_sortDescending pre run mem]
  have "\<forall>f. map_of (labelIds (consumedChartData d')) f = Some 0 \<longleftrightarrow> f = ''total''"
    by blast
  with sorts_sortDescending pre run mem show ?thesis by blast
qed

subsection \<open>The bottom-up merge\<close>

lemma setChildren_children [simp]: "setChildren r (RowData.children r) = r"
  by (cases r) simp

lemma location_setChildren [simp]: "RowData.location (setChildren r ch) = RowData.location r"
  by (cases r) simp

lemma children_setChildren [simp]: "RowData.children (setChildren r ch) = ch"
  by (cases r) simp

lemma location_addAllocation [simp]: "RowData.location (addAllocation r a) = RowData.location r"
  by (cases r) simp

lemma children_addAllocation [simp]: "RowData.children (addAllocation r a) = RowData.children r"
  by (cases r) simp

text \<open>One level of the loop, by recursion on the vector.\<close>

lemma lower_bound_Cons:
  "lower_bound lt (x # xs) = (if lt x then Suc (lower_bound lt xs) else 0)"
  by (simp add: lower_bound_def)

lemma insert_at_0 [simp]: "insert_at 0 x xs = x # xs"
  by (simp add: insert_at_def)

lemma insert_at_Suc [simp]: "insert_at (Suc i) x (y # ys) = y # insert_at i x ys"
  by (simp add: insert_at_def)

lemma mergeLevel_Nil:
  "mergeLevel a loc g [] =
     [RowData (Allocation.allocations a) (Allocation.peak a) (Allocation.leaked a)
        (Allocation.allocated a) loc None (g [])]"
  by (simp add: mergeLevel_def lower_bound_def)

lemma mergeLevel_Cons:
  "mergeLevel a loc g (r # rs) =
     (if RowData.location r < loc then r # mergeLevel a loc g rs
      else if RowData.location r = loc
      then setChildren (addAllocation r a) (g (RowData.children r)) # rs
      else RowData (Allocation.allocations a) (Allocation.peak a) (Allocation.leaked a)
             (Allocation.allocated a) loc None (g [])
           # r # rs)"
  by (simp add: mergeLevel_def lower_bound_Cons Let_def)

lemma mergeLevel_mergeRows:
  "mergeLevel a loc (mergeRows a path) rws = mergeRows a (loc # path) rws"
  by (induction rws) (simp_all add: mergeLevel_Nil mergeLevel_Cons)

lemma mergeLevel_id:
  "mergeLevel a loc (\<lambda>ch. ch) rws = mergeRows a [loc] rws"
  using mergeLevel_mergeRows [of a loc "[]" rws] by (simp add: mergeLevel_def)

lemma walk_zero [simp]: "walk d 0 = Some []"
  by (subst walk.simps) simp

lemma mergeAllocation_zero [simp]: "mergeAllocation d a 0 rws = Some rws"
  by (subst mergeAllocation.simps) simp

lemma walk_step:
  assumes "ti \<noteq> 0"
    and "StringCache_location (stringCache d) (findIp d (ipIndex (findTrace d ti))) = Some loc"
  shows "walk d ti =
     (if isStopIndex d (functionIndex (findIp d (ipIndex (findTrace d ti)))) then Some [loc]
      else (case walk d (parentIndex (findTrace d ti)) of
              None \<Rightarrow> None
            | Some rest \<Rightarrow> Some (loc # rest)))"
  using assms
  by (subst walk.simps) (simp add: Let_def split: option.splits Option.bind_splits)

lemma mergeAllocation_step:
  assumes "ti \<noteq> 0"
    and "StringCache_location (stringCache d) (findIp d (ipIndex (findTrace d ti))) = Some loc"
  shows "mergeAllocation d a ti rws =
     (if isStopIndex d (functionIndex (findIp d (ipIndex (findTrace d ti))))
      then Some (mergeLevel a loc (\<lambda>ch. ch) rws)
      else (case mergeAllocation d a (parentIndex (findTrace d ti))
                  (RowData.children (mergeLevel a loc (\<lambda>ch. ch) rws
                     ! lower_bound (\<lambda>row. RowData.location row < loc) rws)) of
              None \<Rightarrow> None
            | Some ch \<Rightarrow> Some (mergeLevel a loc (\<lambda>x. ch) rws)))"
  using assms
  by (subst mergeAllocation.simps)
     (simp add: Let_def mergeLevel_def split: option.splits Option.bind_splits)

lemma mergeLevel_const:
  "mergeLevel a loc (\<lambda>x. g (RowData.children (mergeLevel a loc (\<lambda>ch. ch) rws
       ! lower_bound (\<lambda>row. RowData.location row < loc) rws))) rws = mergeLevel a loc g rws"
  by (simp add: mergeLevel_def Let_def)

lemma walk_Nil_iff:
  assumes "walk d ti = Some p"
  shows "p = [] \<longleftrightarrow> ti = 0"
proof (cases "ti = 0")
  case True
  then show ?thesis using assms by simp
next
  case False
  obtain loc where "StringCache_location (stringCache d) (findIp d (ipIndex (findTrace d ti))) = Some loc"
    using location_Some by blast
  from walk_step [OF False this] assms False show ?thesis
    by (auto split: if_splits option.splits)
qed

lemma mergeAllocation_walk:
  "walk d ti = Some p \<Longrightarrow> mergeAllocation d a ti rws = Some (mergeRows a p rws)"
proof (induction p arbitrary: ti rws)
  case Nil
  then have "ti = 0" using walk_Nil_iff by blast
  then show ?case by simp
next
  case (Cons l rest)
  then have ti: "ti \<noteq> 0" using walk_Nil_iff by blast
  obtain loc where loc: "StringCache_location (stringCache d) (findIp d (ipIndex (findTrace d ti))) = Some loc"
    using location_Some by blast
  show ?case
  proof (cases "isStopIndex d (functionIndex (findIp d (ipIndex (findTrace d ti))))")
    case True
    with walk_step [OF ti loc] Cons.prems have "l = loc" "rest = []" by simp_all
    then show ?thesis
      using mergeAllocation_step [OF ti loc, of a rws] True by (simp add: mergeLevel_id)
  next
    case False
    with walk_step [OF ti loc] Cons.prems
    have l: "l = loc" and w: "walk d (parentIndex (findTrace d ti)) = Some rest"
      by (auto split: option.splits)
    show ?thesis
      using mergeAllocation_step [OF ti loc, of a rws] False Cons.IH [OF w] l
      by (simp add: mergeLevel_const mergeLevel_mergeRows)
  qed
qed

lemma mergeAllocation_Some_walk:
  assumes "mergeAllocation d a ti rws = Some r"
  shows "\<exists>p. walk d ti = Some p"
proof (rule mergeAllocation.raw_induct
    [where P = "\<lambda>d a ti rws r. \<exists>p. walk d ti = Some p", OF _ assms])
  fix f :: "ParserData \<Rightarrow> Allocation \<Rightarrow> nat \<Rightarrow> RowData list \<Rightarrow> RowData list option"
    and d a ti rws r
  assume IH: "\<And>d' a' ti' rws' r'. f d' a' ti' rws' = Some r' \<Longrightarrow> \<exists>p. walk d' ti' = Some p"
  assume step: "(if ti = 0 then Some rws
      else let trace = findTrace d ti; ip = findIp d (ipIndex trace)
           in StringCache_location (stringCache d) ip \<bind>
              (\<lambda>loc. let it = lower_bound (\<lambda>row. RowData.location row < loc) rws;
                         rws' =
                           if it < length rws \<and> RowData.location (rws ! it) = loc
                           then rws[it := addAllocation (rws ! it) a]
                           else insert_at it
                                 (RowData (Allocation.allocations a) (Allocation.peak a)
                                   (Allocation.leaked a) (Allocation.allocated a) loc None [])
                                 rws
                     in if isStopIndex d (functionIndex ip) then Some rws'
                        else f d a (parentIndex trace) (RowData.children (rws' ! it)) \<bind>
                             (\<lambda>ch. Some (rws'[it := setChildren (rws' ! it) ch])))) = Some r"
  show "\<exists>p. walk d ti = Some p"
  proof (cases "ti = 0")
    case True
    then show ?thesis by simp
  next
    case False
    obtain loc where loc: "StringCache_location (stringCache d) (findIp d (ipIndex (findTrace d ti))) = Some loc"
      using location_Some by blast
    show ?thesis
    proof (cases "isStopIndex d (functionIndex (findIp d (ipIndex (findTrace d ti))))")
      case True
      then show ?thesis using walk_step [OF False loc] by simp
    next
      case stop: False
      from step False loc stop obtain X ch where "f d a (parentIndex (findTrace d ti)) X = Some ch"
        by (auto simp: Let_def split: if_splits Option.bind_splits)
      from IH [OF this] obtain p where "walk d (parentIndex (findTrace d ti)) = Some p" by blast
      then show ?thesis using walk_step [OF False loc] stop by simp
    qed
  qed
qed

lemma rowCost_setChildren [simp]: "rowCost (setChildren r ch) = rowCost r"
  by (cases r) (simp add: rowCost_def)

lemma rowCost_addAllocation [simp]: "rowCost (addAllocation r a) = rowCost r + allocationCost a"
  by (cases r) (simp add: rowCost_def allocationCost_def)

lemma rowCost_new [simp]:
  "rowCost (RowData (Allocation.allocations a) (Allocation.peak a) (Allocation.leaked a)
     (Allocation.allocated a) loc par ch) = allocationCost a"
  by (simp add: rowCost_def allocationCost_def)

lemma sortedRow_children: "sortedRow r = sortedForest (RowData.children r)"
  by (cases r) (simp add: sortedForest_def)

lemma sortedForest_Nil [simp]: "sortedForest []"
  by (simp add: sortedForest_def)

lemma sortedForest_Cons:
  "sortedForest (r # rs) =
     ((\<forall>x \<in> set rs. RowData.location r < RowData.location x) \<and>
      sortedForest (RowData.children r) \<and> sortedForest rs)"
  unfolding sortedRow_children [symmetric] by (auto simp: sortedForest_def)

lemma locations_mergeRows:
  "RowData.location ` set (mergeRows a (loc # path) rs) = insert loc (RowData.location ` set rs)"
  by (induction rs) auto

text \<open>P2: the sum of the top-level costs.\<close>

lemma costSum_Cons [simp]: "costSum (r # rs) = rowCost r + costSum rs"
  by (simp add: costSum_def)

lemma costSum_Nil [simp]: "costSum [] = 0"
  by (simp add: costSum_def)

lemma costSum_mergeRows:
  "costSum (mergeRows a (loc # path) rs) = costSum rs + allocationCost a"
  by (induction rs) (simp_all add: ac_simps)

text \<open>P1: sortedness.\<close>

lemma sortedForest_mergeRows:
  "sortedForest rs \<Longrightarrow> sortedForest (mergeRows a p rs)"
proof (induction a p rs rule: mergeRows.induct)
  case (1 a rws)
  then show ?case by simp
next
  case (2 a loc path)
  then show ?case by (simp add: sortedForest_Cons)
next
  case (3 a loc path r rs)
  from "3.prems" have r: "\<forall>x \<in> set rs. RowData.location r < RowData.location x"
    and ch: "sortedForest (RowData.children r)" and rs: "sortedForest rs"
    by (simp_all add: sortedForest_Cons)
  show ?case
  proof (cases "RowData.location r < loc")
    case True
    have "sortedForest (mergeRows a (loc # path) rs)" using "3.IH"(1) [OF True rs] .
    moreover have "\<forall>x \<in> set (mergeRows a (loc # path) rs). RowData.location r < RowData.location x"
    proof
      fix x
      assume "x \<in> set (mergeRows a (loc # path) rs)"
      then have "RowData.location x \<in> insert loc (RowData.location ` set rs)"
        using locations_mergeRows [of a loc path rs] by blast
      then show "RowData.location r < RowData.location x" using r True by auto
    qed
    ultimately show ?thesis using True ch by (simp add: sortedForest_Cons)
  next
    case False
    show ?thesis
    proof (cases "RowData.location r = loc")
      case True
      have "sortedForest (mergeRows a path (RowData.children r))"
        using "3.IH"(2) [OF False True ch] .
      then show ?thesis using False True r rs by (simp add: sortedForest_Cons)
    next
      case ne: False
      have "sortedForest (mergeRows a path [])" using "3.IH"(3) [OF False ne] by simp
      moreover have "loc < RowData.location r" using False ne by simp
      ultimately show ?thesis using False ne r rs ch
        by (auto simp: sortedForest_Cons)
    qed
  qed
qed

text \<open>P3: the cost at a path.\<close>

lemma find_None_greater:
  "\<forall>x \<in> set rs. l < RowData.location x \<Longrightarrow> find (\<lambda>r. RowData.location r = l) rs = None"
  by (induction rs) auto

lemma find_mergeRows:
  "sorted_wrt (<) (map RowData.location rs) \<Longrightarrow>
   find (\<lambda>r. RowData.location r = l) (mergeRows a (loc # path) rs) =
     (if l = loc then Some (mergedRow a loc path rs) else find (\<lambda>r. RowData.location r = l) rs)"
proof (induction rs)
  case Nil
  then show ?case by (simp add: mergedRow_def)
next
  case (Cons r rs)
  show ?case
  proof (cases "RowData.location r < loc")
    case True
    then show ?thesis using Cons by (auto simp: mergedRow_def)
  next
    case False
    show ?thesis
    proof (cases "RowData.location r = loc")
      case True
      then show ?thesis by (simp add: mergedRow_def)
    next
      case ne: False
      then have "\<forall>x \<in> set (r # rs). loc < RowData.location x"
        using False Cons.prems by auto
      then have "find (\<lambda>r. RowData.location r = loc) (r # rs) = None"
        by (rule find_None_greater)
      then show ?thesis using False ne by (simp add: mergedRow_def)
    qed
  qed
qed

lemma costAt_Nil [simp]: "costAt F [] = 0"
  by (simp add: costAt_def)

lemma costAt_single:
  "costAt F [l] = (case find (\<lambda>r. RowData.location r = l) F of None \<Rightarrow> 0 | Some r \<Rightarrow> rowCost r)"
  by (simp add: costAt_def)

lemma costAt_Cons2:
  "costAt F (l # l' # p) =
     (case find (\<lambda>r. RowData.location r = l) F of
        None \<Rightarrow> 0
      | Some r \<Rightarrow> costAt (RowData.children r) (l' # p))"
  by (simp add: costAt_def split: option.splits)

lemma costAt_empty [simp]: "costAt [] p = 0"
proof (cases p)
  case Nil
  then show ?thesis by simp
next
  case (Cons l p')
  then show ?thesis by (cases p') (simp_all add: costAt_def)
qed

lemma children_mergedRow:
  "RowData.children (mergedRow a loc path F) = mergeRows a path (childrenAt loc F)"
  by (simp add: mergedRow_def childrenAt_def split: option.splits)

lemma rowCost_mergedRow:
  "rowCost (mergedRow a loc path F) = costAt F [loc] + allocationCost a"
  by (simp add: mergedRow_def costAt_single split: option.splits)

lemma sortedForest_childrenAt: "sortedForest F \<Longrightarrow> sortedForest (childrenAt loc F)"
proof (induction F)
  case Nil
  then show ?case by (simp add: childrenAt_def)
next
  case (Cons r rs)
  then show ?case by (auto simp: childrenAt_def sortedForest_Cons split: option.splits)
qed

lemma costAt_childrenAt: "costAt F (l # l' # p) = costAt (childrenAt l F) (l' # p)"
  by (simp add: costAt_Cons2 childrenAt_def split: option.splits)

lemma costAt_mergeRows:
  "sortedForest F \<Longrightarrow>
   costAt (mergeRows a q F) p =
     costAt F p + (if p \<noteq> [] \<and> prefix p q then allocationCost a else 0)"
proof (induction q arbitrary: F p)
  case Nil
  then show ?case by simp
next
  case (Cons loc path)
  have srt: "sorted_wrt (<) (map RowData.location F)"
    using Cons.prems by (simp add: sortedForest_def)
  show ?case
  proof (cases p)
    case Nil
    then show ?thesis by simp
  next
    case p: (Cons l p')
    show ?thesis
    proof (cases "l = loc")
      case False
      then show ?thesis
        using find_mergeRows [OF srt, of l a loc path] p
        by (cases p') (simp_all add: costAt_single costAt_Cons2)
    next
      case True
      show ?thesis
      proof (cases p')
        case Nil
        then show ?thesis
          using find_mergeRows [OF srt, of l a loc path] p True
          by (simp add: costAt_single rowCost_mergedRow)
      next
        case (Cons l' p'')
        have "costAt (mergeRows a (loc # path) F) p
            = costAt (mergeRows a path (childrenAt loc F)) (l' # p'')"
          using find_mergeRows [OF srt, of l a loc path] p True Cons
          by (simp add: costAt_Cons2 children_mergedRow)
        also have "\<dots> = costAt (childrenAt loc F) (l' # p'')
            + (if prefix (l' # p'') path then allocationCost a else 0)"
          using Cons.IH [OF sortedForest_childrenAt [OF Cons.prems], of loc "l' # p''"] by simp
        finally show ?thesis using p True Cons by (simp add: costAt_childrenAt)
      qed
    qed
  qed
qed

lemma passesThrough_walk: "walk d (traceIndex a) = Some q \<Longrightarrow> passesThrough d p a = prefix p q"
  by (simp add: passesThrough_def)

lemma mergeAllocationsLoop_props:
  "mergeAllocationsLoop d as F = Some R \<Longrightarrow> sortedForest F \<Longrightarrow>
   sortedForest R
   \<and> costSum R = costSum F + sum_list (map allocationCost (filter (\<lambda>a. traceIndex a \<noteq> 0) as))
   \<and> (\<forall>p. p \<noteq> [] \<longrightarrow>
         costAt R p = costAt F p + sum_list (map allocationCost (filter (passesThrough d p) as)))
   \<and> (\<forall>a \<in> set as. \<exists>q. walk d (traceIndex a) = Some q)"
proof (induction as arbitrary: F)
  case Nil
  then show ?case by simp
next
  case (Cons a as)
  from Cons.prems(1) obtain F1 where
    1: "mergeAllocation d a (traceIndex a) F = Some F1" and
    2: "mergeAllocationsLoop d as F1 = Some R"
    by (auto split: Option.bind_splits)
  from mergeAllocation_Some_walk [OF 1] obtain q where q: "walk d (traceIndex a) = Some q"
    by blast
  have F1: "F1 = mergeRows a q F"
    using mergeAllocation_walk [OF q, of a F] 1 by simp
  have s1: "sortedForest F1"
    unfolding F1 using Cons.prems(2) by (rule sortedForest_mergeRows)
  note IH = Cons.IH [OF 2 s1]
  have c1: "costSum F1 = costSum F + (if traceIndex a \<noteq> 0 then allocationCost a else 0)"
  proof (cases q)
    case Nil
    then show ?thesis using walk_Nil_iff [OF q] F1 by simp
  next
    case (Cons loc path)
    then show ?thesis using walk_Nil_iff [OF q] F1 by (simp add: costSum_mergeRows)
  qed
  have p1: "costAt F1 p = costAt F p + (if passesThrough d p a then allocationCost a else 0)"
    if "p \<noteq> []" for p
    unfolding F1 using costAt_mergeRows [OF Cons.prems(2), of a q p] that
    by (simp add: passesThrough_walk [OF q])
  have "costSum R = costSum F + sum_list (map allocationCost (filter (\<lambda>a. traceIndex a \<noteq> 0) (a # as)))"
    using IH c1 by (simp add: ac_simps)
  moreover have "\<forall>p. p \<noteq> [] \<longrightarrow>
         costAt R p = costAt F p + sum_list (map allocationCost (filter (passesThrough d p) (a # as)))"
    using IH p1 by (simp add: ac_simps)
  moreover have "\<forall>a' \<in> set (a # as). \<exists>q. walk d (traceIndex a') = Some q"
    using IH q by simp
  ultimately show ?case using IH by blast
qed

text \<open>The loop returns when every walk does.\<close>

lemma mergeAllocationsLoop_Some:
  "\<forall>a \<in> set as. \<exists>q. walk d (traceIndex a) = Some q \<Longrightarrow>
   \<exists>R. mergeAllocationsLoop d as F = Some R"
proof (induction as arbitrary: F)
  case Nil
  then show ?case by simp
next
  case (Cons a as)
  then obtain q where "walk d (traceIndex a) = Some q" by auto
  then have "mergeAllocation d a (traceIndex a) F = Some (mergeRows a q F)"
    by (rule mergeAllocation_walk)
  then show ?case using Cons.IH [of "mergeRows a q F"] Cons.prems by simp
qed

text \<open>setParents changes nothing but the parent pointers.\<close>

lemma length_setParentsFrom [simp]: "length (setParentsFrom i F par) = length F"
  by (induction i F par rule: setParentsFrom.induct) simp_all

lemma rowCost_RowData [simp]: "rowCost (RowData a p l al loc par ch) = Cost a p l al"
  by (simp add: rowCost_def)

lemma locations_setParentsFrom [simp]:
  "map RowData.location (setParentsFrom i F par) = map RowData.location F"
  by (induction i F par rule: setParentsFrom.induct) simp_all

lemma costs_setParentsFrom [simp]:
  "map rowCost (setParentsFrom i F par) = map rowCost F"
  by (induction i F par rule: setParentsFrom.induct) simp_all

lemma costSum_setParents [simp]: "costSum (setParents F par) = costSum F"
  by (simp add: costSum_def setParents_def)

lemma rowsWithPaths_setParentsFrom:
  "map (\<lambda>(p, r). (p, rowCost r)) (rowsWithPaths pre (setParentsFrom i F par)) =
   map (\<lambda>(p, r). (p, rowCost r)) (rowsWithPaths pre F)"
  by (induction i F par arbitrary: pre rule: setParentsFrom.induct) simp_all

lemma location_set_setParentsFrom:
  "RowData.location ` set (setParentsFrom i F par) = RowData.location ` set F"
  using locations_setParentsFrom [of i F par] by (metis set_map)

lemma ball_location_setParentsFrom:
  "(\<forall>x \<in> set (setParentsFrom i F par). P (RowData.location x)) =
   (\<forall>x \<in> set F. P (RowData.location x))"
  using location_set_setParentsFrom [of i F par] by (metis (no_types, lifting) image_iff)

lemma sortedForest_setParentsFrom:
  "sortedForest (setParentsFrom i F par) = sortedForest F"
proof (induction i F par rule: setParentsFrom.induct)
  case (1 i par)
  then show ?case by simp
next
  case (2 i a p l al loc old ch rest par)
  have "sortedForest (RowData a p l al loc par (setParentsFrom 0 ch (Some (vectorAddress par @ [i]))) # setParentsFrom (Suc i) rest par)
      = sortedForest (RowData a p l al loc old ch # rest)"
    unfolding sortedForest_Cons using 2
    by (simp add: ball_location_setParentsFrom)
  then show ?case by simp
qed

lemma sortedRow_dedupRow: "sortedRow r \<Longrightarrow> dedupRow r"
proof (induction r)
  case (RowData a p l al loc par ch)
  then show ?case by (auto simp: strict_sorted_iff)
qed

lemma sortedForest_dedupForest: "sortedForest F \<Longrightarrow> dedupForest F"
  by (auto simp: sortedForest_def dedupForest_def strict_sorted_iff sortedRow_dedupRow)

lemma dedupRow_children: "dedupRow r = dedupForest (RowData.children r)"
  by (cases r) (simp add: dedupForest_def)

lemma dedupForest_Cons:
  "dedupForest (r # rs) =
     (RowData.location r \<notin> RowData.location ` set rs \<and>
      dedupForest (RowData.children r) \<and> dedupForest rs)"
  unfolding dedupRow_children [symmetric] by (auto simp: dedupForest_def)

lemma findRow_Some_nonempty: "findRow F q = Some r \<Longrightarrow> q \<noteq> []"
  by auto

lemma find_location_mem:
  "find (\<lambda>r. RowData.location r = l) F = Some x \<Longrightarrow> l \<in> RowData.location ` set F"
  by (induction F) (auto split: if_splits)

lemma findRow_head_mem:
  assumes "findRow F (l # q) = Some r"
  shows "l \<in> RowData.location ` set F"
proof (cases q)
  case Nil
  then show ?thesis using assms find_location_mem by simp
next
  case (Cons l' q')
  then show ?thesis using assms find_location_mem by (auto split: option.splits)
qed

lemma findRow_Cons_same:
  "q \<noteq> [] \<Longrightarrow> findRow (r # rs) (RowData.location r # q) = findRow (RowData.children r) q"
  by (cases q) simp_all

lemma findRow_Cons_other:
  "l \<noteq> RowData.location r \<Longrightarrow> findRow (r # rs) (l # q) = findRow rs (l # q)"
  by (cases q) auto

lemma rowsWithPaths_findRow:
  "dedupForest F \<Longrightarrow> (p, r) \<in> set (rowsWithPaths pre F) \<Longrightarrow>
   \<exists>q. p = pre @ q \<and> findRow F q = Some r"
proof (induction pre F arbitrary: p r rule: rowsWithPaths.induct)
  case (1 pre)
  then show ?case by simp
next
  case (2 pre a pk l al loc par ch rest)
  let ?R = "RowData a pk l al loc par ch"
  from "2.prems"(1) have nin: "loc \<notin> RowData.location ` set rest"
    and dch: "dedupForest ch" and drest: "dedupForest rest"
    by (simp_all add: dedupForest_Cons)
  from "2.prems"(2) consider
    (here) "p = pre @ [loc]" "r = ?R"
    | (below) "(p, r) \<in> set (rowsWithPaths (pre @ [loc]) ch)"
    | (later) "(p, r) \<in> set (rowsWithPaths pre rest)"
    by auto
  then show ?case
  proof cases
    case here
    then show ?thesis by (intro exI [of _ "[loc]"]) simp
  next
    case below
    from "2.IH"(1) [OF dch below] obtain q where q: "p = (pre @ [loc]) @ q" "findRow ch q = Some r"
      by blast
    then have "q \<noteq> []" by auto
    then have "findRow (?R # rest) (loc # q) = Some r"
      using findRow_Cons_same [of q ?R rest] q(2) by simp
    then show ?thesis using q(1) by (intro exI [of _ "loc # q"]) simp
  next
    case later
    from "2.IH"(2) [OF drest later] obtain q where q: "p = pre @ q" "findRow rest q = Some r"
      by blast
    then obtain l' q' where lq: "q = l' # q'" by (cases q) auto
    have "l' \<in> RowData.location ` set rest" using findRow_head_mem q(2) lq by blast
    then have "l' \<noteq> loc" using nin by blast
    then have "findRow (?R # rest) q = findRow rest q"
      using findRow_Cons_other [of l' ?R rest q'] lq by simp
    then show ?thesis using q by auto
  qed
qed

lemma rowsWithPaths_costAt:
  assumes "dedupForest F" "(p, r) \<in> set (rowsWithPaths [] F)"
  shows "rowCost r = costAt F p \<and> p \<noteq> []"
  using rowsWithPaths_findRow [OF assms] by (auto simp: costAt_def)

lemma findByLocationFrom_shift:
  "findByLocationFrom (Suc i) row (x # xs) = map_option Suc (findByLocationFrom i row xs)"
proof (induction i row xs rule: findByLocationFrom.induct)
  case (1 i row dat)
  show ?case
  proof (cases "i < length dat")
    case False
    then show ?thesis
      by (subst findByLocationFrom.simps, subst (2) findByLocationFrom.simps) simp
  next
    case True
    show ?thesis
    proof (cases "RowData.location (dat ! i) = RowData.location row")
      case eq: True
      then show ?thesis using True
        by (subst findByLocationFrom.simps, subst (2) findByLocationFrom.simps) simp
    next
      case ne: False
      have "findByLocationFrom (Suc i) row (x # dat) = findByLocationFrom (Suc (Suc i)) row (x # dat)"
        using True ne by (subst findByLocationFrom.simps) simp
      also have "\<dots> = map_option Suc (findByLocationFrom (Suc i) row dat)"
        using 1 [OF True ne] by simp
      also have "findByLocationFrom (Suc i) row dat = findByLocationFrom i row dat"
        using True ne by (subst (2) findByLocationFrom.simps) simp
      finally show ?thesis .
    qed
  qed
qed

lemma findByLocation_Nil [simp]: "findByLocation row [] = None"
  by (simp add: findByLocation_def findByLocationFrom.simps)

lemma findByLocation_Cons:
  "findByLocation row (x # xs) =
     (if RowData.location x = RowData.location row then Some 0
      else map_option Suc (findByLocation row xs))"
  unfolding findByLocation_def
  by (subst findByLocationFrom.simps) (simp add: findByLocationFrom_shift)

lemma location_addRowCost [simp]: "RowData.location (addRowCost r row) = RowData.location r"
  by (cases r) simp

lemma children_addRowCost [simp]: "RowData.children (addRowCost r row) = RowData.children r"
  by (cases r) simp

lemma bubbleLevel_Nil:
  "bubbleLevel row n g [] =
     [setChildren (addRowCost (RowData 0 0 0 0 (RowData.location n) None []) row) (g [])]"
  by (simp add: bubbleLevel_def)

lemma bubbleLevel_Cons:
  "bubbleLevel row n g (r # rs) =
     (if RowData.location r = RowData.location n
      then setChildren (addRowCost r row) (g (RowData.children r)) # rs
      else r # bubbleLevel row n g rs)"
  by (cases "findByLocation n rs")
     (simp_all add: bubbleLevel_def findByLocation_Cons Let_def)

lemma bubbleLevel_addChain:
  "bubbleLevel row n (addChain row chain) stack = addChain row (RowData.location n # chain) stack"
  by (induction stack) (simp_all add: bubbleLevel_Nil bubbleLevel_Cons)

lemma bubbleUp_None [simp]: "bubbleUp heap row None stack = Some stack"
  by (subst bubbleUp.simps) simp

lemma findByLocation_Some_less:
  "findByLocation n stack = Some i \<Longrightarrow> i < length stack"
proof (induction stack arbitrary: i)
  case Nil
  then show ?case by simp
next
  case (Cons r rs)
  then show ?case by (auto simp: findByLocation_Cons split: if_splits)
qed

lemma bubbleUp_Some:
  "bubbleUp heap row (Some n) stack =
     (case deref heap (RowData.parent n) of
        None \<Rightarrow> None
      | Some next \<Rightarrow>
          (case bubbleUp heap row next
                  (RowData.children (bubbleLevel row n (\<lambda>ch. ch) stack
                     ! (case findByLocation n stack of None \<Rightarrow> length stack | Some i \<Rightarrow> i))) of
             None \<Rightarrow> None
           | Some ch \<Rightarrow> Some (bubbleLevel row n (\<lambda>x. ch) stack)))"
proof (cases "findByLocation n stack")
  case None
  then show ?thesis
    by (subst bubbleUp.simps)
       (simp add: Let_def bubbleLevel_def split: option.splits Option.bind_splits)
next
  case (Some i)
  then have "i < length stack" by (rule findByLocation_Some_less)
  then show ?thesis using Some
    by (subst bubbleUp.simps)
       (simp add: Let_def bubbleLevel_def split: option.splits Option.bind_splits)
qed

lemma bubbleLevel_const:
  "bubbleLevel row n (\<lambda>x. g (RowData.children (bubbleLevel row n (\<lambda>ch. ch) stack
       ! (case findByLocation n stack of None \<Rightarrow> length stack | Some i \<Rightarrow> i)))) stack
   = bubbleLevel row n g stack"
proof (cases "findByLocation n stack")
  case None
  then show ?thesis by (simp add: bubbleLevel_def Let_def)
next
  case (Some i)
  then have "i < length stack" by (rule findByLocation_Some_less)
  then show ?thesis using Some by (simp add: bubbleLevel_def Let_def)
qed

lemma bubbleLevel_id:
  "bubbleLevel row n (\<lambda>ch. ch) stack = addChain row [RowData.location n] stack"
  using bubbleLevel_addChain [of row n "[]" stack] by (simp add: bubbleLevel_def)

lemma bubbleUp_chain:
  "hasChain heap (RowData.parent n) chain \<Longrightarrow>
   bubbleUp heap row (Some n) stack = Some (addChain row (RowData.location n # chain) stack)"
proof (induction chain arbitrary: n stack)
  case Nil
  then have "RowData.parent n = None" by (cases "RowData.parent n") simp_all
  then show ?case
    using bubbleLevel_const [of row n "\<lambda>ch. ch" stack]
    by (simp add: bubbleUp_Some bubbleLevel_id)
next
  case (Cons l rest)
  from Cons.prems obtain a m where a: "RowData.parent n = Some a" "rowAt heap a = Some m"
    "RowData.location m = l" "hasChain heap (RowData.parent m) rest"
    by (cases "RowData.parent n") (auto split: option.splits)
  have IH: "bubbleUp heap row (Some m) X = Some (addChain row (l # rest) X)" for X
    using Cons.IH [OF a(4), of X] a(3) by simp
  show ?case
    using a(1,2) IH bubbleLevel_const [of row n "addChain row (l # rest)" stack]
    by (simp add: bubbleUp_Some bubbleLevel_addChain)
qed

lemma rowAt_snoc:
  "a \<noteq> [] \<Longrightarrow> rowAt heap (a @ [m]) =
     (case rowAt heap a of None \<Rightarrow> None | Some r \<Rightarrow> at (RowData.children r) m)"
proof (induction heap a rule: rowAt.induct)
  case (1 forest)
  then show ?case by simp
next
  case (2 forest i)
  then show ?case by (simp split: option.splits)
next
  case (3 forest i j js)
  then show ?case by (simp split: option.splits)
qed

lemma chained_setParentsFrom:
  "hasChain heap par anc \<Longrightarrow>
   (\<forall>k < length F. rowAt heap (vectorAddress par @ [i + k]) = Some (setParentsFrom i F par ! k)) \<Longrightarrow>
   \<forall>r \<in> set (setParentsFrom i F par). chainedRow heap anc r"
proof (induction i F par arbitrary: anc rule: setParentsFrom.induct)
  case (1 i par)
  then show ?case by simp
next
  case (2 i a p l al loc old ch rest par)
  let ?me = "vectorAddress par @ [i]"
  let ?R = "RowData a p l al loc par (setParentsFrom 0 ch (Some ?me))"
  have here: "rowAt heap ?me = Some ?R"
    using "2.prems"(2) [rule_format, of 0] by simp
  have chain: "hasChain heap (Some ?me) (loc # anc)"
    using here "2.prems"(1) by simp
  have below: "\<forall>k < length ch. rowAt heap (vectorAddress (Some ?me) @ [0 + k])
      = Some (setParentsFrom 0 ch (Some ?me) ! k)"
  proof (intro allI impI)
    fix k
    assume k: "k < length ch"
    have "rowAt heap (?me @ [k]) = at (RowData.children ?R) k"
      using rowAt_snoc [of ?me heap k] here by simp
    then have "rowAt heap (?me @ [k]) = Some (setParentsFrom 0 ch (Some ?me) ! k)"
      using k by (simp add: at_def)
    then show "rowAt heap (vectorAddress (Some ?me) @ [0 + k])
      = Some (setParentsFrom 0 ch (Some ?me) ! k)" by simp
  qed
  have 1: "\<forall>c \<in> set (setParentsFrom 0 ch (Some ?me)). chainedRow heap (loc # anc) c"
    using "2.IH"(1) [OF chain below] .
  have later: "\<forall>k < length rest. rowAt heap (vectorAddress par @ [Suc i + k])
      = Some (setParentsFrom (Suc i) rest par ! k)"
  proof (intro allI impI)
    fix k
    assume "k < length rest"
    then show "rowAt heap (vectorAddress par @ [Suc i + k]) = Some (setParentsFrom (Suc i) rest par ! k)"
      using "2.prems"(2) [rule_format, of "Suc k"] by simp
  qed
  have 2: "\<forall>r \<in> set (setParentsFrom (Suc i) rest par). chainedRow heap anc r"
    using "2.IH"(2) [OF "2.prems"(1) later] .
  show ?case using 1 2 "2.prems"(1) by simp
qed

lemma chained_setParents:
  "\<forall>r \<in> set (setParents F None). chainedRow (setParents F None) [] r"
  unfolding setParents_def
  by (rule chained_setParentsFrom) (simp_all add: at_def)

lemma addLeaves_append: "addLeaves (xs @ ys) td = addLeaves ys (addLeaves xs td)"
  by (simp add: addLeaves_def)

lemma addLeaves_Nil [simp]: "addLeaves [] td = td"
  by (simp add: addLeaves_def)

lemma addLeaves_Cons [simp]:
  "addLeaves ((row, chain) # xs) td = addLeaves xs (addChain row chain td)"
  by (simp add: addLeaves_def)

lemma addLeaves_single: "addLeaves [(row, chain)] td = addChain row chain td"
  by (simp add: addLeaves_def)

lemma buildTopDown_chained:
  "\<forall>r \<in> set rs. chainedRow heap anc r \<Longrightarrow>
   buildTopDown heap rs td = Some (addLeaves (leafChains anc rs) td)"
proof (induction heap rs td arbitrary: anc rule: buildTopDown.induct)
  case (1 heap topDownData)
  then show ?case by simp
next
  case (2 heap a p l al loc par ch rest topDownData)
  let ?R = "RowData a p l al loc par ch"
  from "2.prems" have me: "hasChain heap par anc"
    and below: "\<forall>c \<in> set ch. chainedRow heap (loc # anc) c"
    and later: "\<forall>r \<in> set rest. chainedRow heap anc r"
    by simp_all
  show ?case
  proof (cases "ch = []")
    case True
    have "bubbleUp heap ?R (Some ?R) topDownData = Some (addChain ?R (loc # anc) topDownData)"
      using bubbleUp_chain [of heap ?R anc ?R topDownData] me by simp
    then show ?thesis
      using True "2.IH"(2) [OF _ later, of "addChain ?R (loc # anc) topDownData"]
      by (simp add: addLeaves_append)
  next
    case False
    have "buildTopDown heap ch topDownData = Some (addLeaves (leafChains (loc # anc) ch) topDownData)"
      using "2.IH"(1) [OF False below] .
    then show ?thesis
      using False "2.IH"(2) [OF _ later, of "addLeaves (leafChains (loc # anc) ch) topDownData"]
      by (simp add: addLeaves_append)
  qed
qed

lemma toTopDownData_setParents:
  "toTopDownData (setParents F None) =
     Some (setParents (addLeaves (leafChains [] (setParents F None)) []) None)"
  unfolding toTopDownData_def
  using buildTopDown_chained [OF chained_setParents, of F "[]"] by simp

lemma rowCost_addRowCost [simp]: "rowCost (addRowCost r row) = rowCost r + rowCost row"
  by (cases r) (simp add: rowCost_def)

lemma rowCost_zero_row: "rowCost (RowData 0 0 0 0 loc par ch) = 0"
  by (simp add: rowCost_def zero_Cost_def)

lemma costSum_addChain:
  "costSum (addChain row (loc # chain) stack) = costSum stack + rowCost row"
proof (induction stack)
  case Nil
  show ?case by (simp add: rowCost_def)
next
  case (Cons r rs)
  then show ?case by (simp add: ac_simps)
qed

lemma leafChains_nonempty: "(row, chain) \<in> set (leafChains anc F) \<Longrightarrow> chain \<noteq> []"
  by (induction anc F rule: leafChains.induct) (auto split: if_splits)

lemma costSum_addLeaves:
  "\<forall>(row, chain) \<in> set leaves. chain \<noteq> [] \<Longrightarrow>
   costSum (addLeaves leaves td) = costSum td + sum_list (map (\<lambda>(row, chain). rowCost row) leaves)"
proof (induction leaves arbitrary: td)
  case Nil
  then show ?case by simp
next
  case (Cons x leaves)
  obtain row chain where x: "x = (row, chain)" by (cases x)
  with Cons.prems obtain loc rest where chain: "chain = loc # rest" by (cases chain) auto
  show ?case
    using Cons.IH [of "addChain row chain td"] Cons.prems x chain
    by (simp add: costSum_addChain ac_simps)
qed

lemma leafCost_children:
  "leafCost r = (if RowData.children r = [] then rowCost r else sum_list (map leafCost (RowData.children r)))"
  by (cases r) simp

lemma sum_leafChains:
  "sum_list (map (\<lambda>(row, chain). rowCost row) (leafChains anc F)) = sum_list (map leafCost F)"
  by (induction anc F rule: leafChains.induct) simp_all

lemma balancedRow_leafCost: "balancedRow r \<Longrightarrow> leafCost r = rowCost r"
proof (induction r)
  case (RowData a p l al loc par ch)
  show ?case
  proof (cases "ch = []")
    case True
    then show ?thesis by simp
  next
    case False
    have h: "map leafCost ch = map rowCost ch"
      using RowData by (intro map_cong) auto
    have "leafCost (RowData a p l al loc par ch) = sum_list (map leafCost ch)"
      using False by simp
    also have "\<dots> = sum_list (map rowCost ch)" by (simp only: h)
    also have "\<dots> = Cost a p l al" using RowData.prems False by simp
    finally show ?thesis by simp
  qed
qed

lemma balanced_leafCost_sum:
  "\<forall>r \<in> set F. balancedRow r \<Longrightarrow> sum_list (map leafCost F) = costSum F"
  unfolding costSum_def by (intro arg_cong [where f = sum_list] map_cong) (auto simp: balancedRow_leafCost)

text \<open>No duplicates among the siblings of the top-down forest.\<close>

lemma dedupForest_Nil [simp]: "dedupForest []"
  by (simp add: dedupForest_def)

lemma locations_addChain:
  "RowData.location ` set (addChain row (loc # chain) stack) = insert loc (RowData.location ` set stack)"
  by (induction stack) auto

lemma dedupForest_addChain:
  "dedupForest stack \<Longrightarrow> dedupForest (addChain row chain stack)"
proof (induction row chain stack rule: addChain.induct)
  case (1 row stack)
  then show ?case by simp
next
  case (2 row loc chain)
  then show ?case by (simp add: dedupForest_Cons)
next
  case (3 row loc chain r rs)
  from "3.prems" have nin: "RowData.location r \<notin> RowData.location ` set rs"
    and ch: "dedupForest (RowData.children r)" and rs: "dedupForest rs"
    by (simp_all add: dedupForest_Cons)
  show ?case
  proof (cases "RowData.location r = loc")
    case True
    then show ?thesis using "3.IH"(1) [OF True ch] nin rs by (simp add: dedupForest_Cons)
  next
    case False
    have "dedupForest (addChain row (loc # chain) rs)" using "3.IH"(2) [OF False rs] .
    moreover have "RowData.location r \<notin> RowData.location ` set (addChain row (loc # chain) rs)"
      unfolding locations_addChain using False nin by simp
    ultimately show ?thesis using False ch by (simp add: dedupForest_Cons)
  qed
qed

lemma dedupForest_addLeaves:
  "dedupForest td \<Longrightarrow> dedupForest (addLeaves leaves td)"
proof (induction leaves arbitrary: td)
  case Nil
  then show ?case by simp
next
  case (Cons x leaves)
  obtain row chain where x: "x = (row, chain)" by (cases x)
  show ?case using Cons.IH [OF dedupForest_addChain [OF Cons.prems, of row chain]] x by simp
qed

lemma dedupForest_setParentsFrom:
  "dedupForest (setParentsFrom i F par) = dedupForest F"
proof (induction i F par rule: setParentsFrom.induct)
  case (1 i par)
  then show ?case by simp
next
  case (2 i a p l al loc old ch rest par)
  have "dedupForest (RowData a p l al loc par (setParentsFrom 0 ch (Some (vectorAddress par @ [i]))) # setParentsFrom (Suc i) rest par)
      = dedupForest (RowData a p l al loc old ch # rest)"
    unfolding dedupForest_Cons using 2
    by (simp add: location_set_setParentsFrom)
  then show ?case by simp
qed

text \<open>Walks end when every frame's parent index is below the frame's own index.\<close>

lemma walk_decreasing:
  assumes "\<forall>i. i \<noteq> 0 \<longrightarrow> parentIndex (findTrace d i) < i"
  shows "\<exists>q. walk d i = Some q"
proof (induction i rule: less_induct)
  case (less i)
  show ?case
  proof (cases "i = 0")
    case True
    then show ?thesis by simp
  next
    case False
    obtain loc where loc: "StringCache_location (stringCache d) (findIp d (ipIndex (findTrace d i))) = Some loc"
      using location_Some by blast
    from assms False have "parentIndex (findTrace d i) < i" by blast
    from less [OF this] obtain q where "walk d (parentIndex (findTrace d i)) = Some q" by blast
    then show ?thesis using walk_step [OF False loc] by simp
  qed
qed

subsection \<open>The pipeline\<close>

lemma dedupForest_setParents: "dedupForest (setParents F par) = dedupForest F"
  by (simp add: setParents_def dedupForest_setParentsFrom)

lemma sortedForest_setParents: "sortedForest (setParents F par) = sortedForest F"
  by (simp add: setParents_def sortedForest_setParentsFrom)

lemma walksEnd_decreasing:
  "\<forall>i. i \<noteq> 0 \<longrightarrow> parentIndex (findTrace d i) < i \<Longrightarrow> walksEnd d"
  using walk_decreasing [of d] by (auto simp: walksEnd_def)

lemma mergeAllocations_returns:
  assumes "walksEnd d"
  obtains R where "mergeAllocationsLoop d (AccumulatedTraceData.allocations d) [] = Some R"
    and "mergeAllocations d = Some (setParents R None)"
proof -
  have "\<forall>a \<in> set (AccumulatedTraceData.allocations d). \<exists>q. walk d (traceIndex a) = Some q"
    using assms by (auto simp: walksEnd_def)
  from mergeAllocationsLoop_Some [OF this, of "[]"] obtain R where
    "mergeAllocationsLoop d (AccumulatedTraceData.allocations d) [] = Some R" by blast
  then show thesis using that by (simp add: mergeAllocations_def)
qed

lemma mergeAllocations_walksEnd:
  assumes "mergeAllocations d = Some bu"
  shows "walksEnd d"
proof -
  from assms obtain R where R: "mergeAllocationsLoop d (AccumulatedTraceData.allocations d) [] = Some R"
    by (auto simp: mergeAllocations_def split: Option.bind_splits)
  from mergeAllocationsLoop_props [OF R] show ?thesis by (auto simp: walksEnd_def)
qed

lemma mergeAllocations_setParents:
  assumes "mergeAllocations d = Some bu"
  shows "\<exists>R. bu = setParents R None"
  using assms by (auto simp: mergeAllocations_def split: Option.bind_splits)

lemma leafCost_setParentsFrom:
  "map leafCost (setParentsFrom i F par) = map leafCost F"
proof (induction i F par rule: setParentsFrom.induct)
  case (1 i par)
  then show ?case by simp
next
  case (2 i a p l al loc old ch rest par)
  have "setParentsFrom 0 ch (Some (vectorAddress par @ [i])) = [] \<longleftrightarrow> ch = []"
    by (metis length_0_conv length_setParentsFrom)
  then show ?case using 2 by simp
qed

subsection \<open>Evaluation on the concrete data\<close>

lemmas tree_eval =
  exData_def ParserData_ctor_def exBase_def exTraces_def exIps_def exStrings_def exAllocation_def
  StringCache_location_def StringCache_func_def StringCache_file_def StringCache_module_def
  StringCache_stringify_def at_def Let_def

lemma ex_walk1:
  "walk (exData as) (Suc 0) =
     Some [LocationData ''B'' [] [] 0, LocationData ''A'' [] [] 0, LocationData ''main'' [] [] 0]"
  by (simp add: walk.simps tree_eval)

lemma ex_walk2:
  "walk (exData as) 2 = Some [LocationData ''A'' [] [] 0, LocationData ''main'' [] [] 0]"
  by (simp add: walk.simps tree_eval)

lemma ex_walk4:
  "walk (exData as) 4 = Some [LocationData ''B'' [] [] 0, LocationData ''A'' [] [] 0]"
  by (simp add: walk.simps tree_eval)

lemma ex_allocations [simp]: "AccumulatedTraceData.allocations (exData as) = as"
  by (simp add: exData_def ParserData_ctor_def exBase_def Let_def)

lemma ex_traceIndex [simp]: "traceIndex (exAllocation t c) = t"
  by (simp add: exAllocation_def)

lemmas ex_merge =
  mergeAllocation_walk [OF ex_walk1] mergeAllocation_walk [OF ex_walk2]
  mergeAllocation_walk [OF ex_walk4]

lemmas merge_eval =
  mergeAllocations_def ex_merge less_LocationData_def setParents_def exAllocation_def

lemmas topdown_eval =
  toTopDownData_def bubbleUp_Some bubbleLevel_def findByLocation_Cons at_def setParents_def

text \<open>The scenario of the spec: two allocations with the call path \<open>main\<close>, \<open>A\<close>, \<open>B\<close>.\<close>

lemma ex_shared_merge:
  "mergeAllocations (exData [exAllocation 1 100, exAllocation 1 50]) =
   Some [RowData 2 150 150 150 (LocationData ''B'' [] [] 0) None
     [RowData 2 150 150 150 (LocationData ''A'' [] [] 0) (Some [0])
       [RowData 2 150 150 150 (LocationData ''main'' [] [] 0) (Some [0, 0]) []]]]"
  by (simp add: merge_eval)

lemma ex_shared_topdown:
  "toTopDownData [RowData 2 150 150 150 (LocationData ''B'' [] [] 0) None
     [RowData 2 150 150 150 (LocationData ''A'' [] [] 0) (Some [0])
       [RowData 2 150 150 150 (LocationData ''main'' [] [] 0) (Some [0, 0]) []]]] =
   Some [RowData 2 150 150 150 (LocationData ''main'' [] [] 0) None
     [RowData 2 150 150 150 (LocationData ''A'' [] [] 0) (Some [0])
       [RowData 2 150 150 150 (LocationData ''B'' [] [] 0) (Some [0, 0]) []]]]"
  by (simp add: topdown_eval)

lemma ex_shared_walksEnd: "walksEnd (exData [exAllocation 1 100, exAllocation 1 50])"
  by (simp add: walksEnd_def ex_walk1)

lemma ex_shared_noProperPrefix:
  "noProperPrefix (exData [exAllocation 1 100, exAllocation 1 50])"
  by (simp add: noProperPrefix_def ex_walk1)

text \<open>
  A store with a walk that is a proper prefix of another (\<open>B\<close>, \<open>A\<close> against \<open>B\<close>, \<open>A\<close>, \<open>main\<close>) and an
  allocation without a trace.
\<close>

lemma ex_prefix_merge:
  "mergeAllocations (exData [exAllocation 1 100, exAllocation 4 50, exAllocation 0 3]) =
   Some [RowData 2 150 150 150 (LocationData ''B'' [] [] 0) None
     [RowData 2 150 150 150 (LocationData ''A'' [] [] 0) (Some [0])
       [RowData 1 100 100 100 (LocationData ''main'' [] [] 0) (Some [0, 0]) []]]]"
  by (simp add: merge_eval)

lemma ex_prefix_topdown:
  "toTopDownData [RowData 2 150 150 150 (LocationData ''B'' [] [] 0) None
     [RowData 2 150 150 150 (LocationData ''A'' [] [] 0) (Some [0])
       [RowData 1 100 100 100 (LocationData ''main'' [] [] 0) (Some [0, 0]) []]]] =
   Some [RowData 1 100 100 100 (LocationData ''main'' [] [] 0) None
     [RowData 1 100 100 100 (LocationData ''A'' [] [] 0) (Some [0])
       [RowData 1 100 100 100 (LocationData ''B'' [] [] 0) (Some [0, 0]) []]]]"
  by (simp add: topdown_eval)

text \<open>Two walks with different leaf frames: \<open>A\<close>, \<open>main\<close> and \<open>B\<close>, \<open>A\<close>.\<close>

lemma ex_two_merge:
  "mergeAllocations (exData [exAllocation 2 7, exAllocation 4 5]) =
   Some [RowData 1 7 7 7 (LocationData ''A'' [] [] 0) None
           [RowData 1 7 7 7 (LocationData ''main'' [] [] 0) (Some [0]) []],
         RowData 1 5 5 5 (LocationData ''B'' [] [] 0) None
           [RowData 1 5 5 5 (LocationData ''A'' [] [] 0) (Some [1]) []]]"
  by (simp add: merge_eval)

lemma ex_two_topdown:
  "toTopDownData
     [RowData 1 7 7 7 (LocationData ''A'' [] [] 0) None
        [RowData 1 7 7 7 (LocationData ''main'' [] [] 0) (Some [0]) []],
      RowData 1 5 5 5 (LocationData ''B'' [] [] 0) None
        [RowData 1 5 5 5 (LocationData ''A'' [] [] 0) (Some [1]) []]] =
   Some [RowData 1 7 7 7 (LocationData ''main'' [] [] 0) None
           [RowData 1 7 7 7 (LocationData ''A'' [] [] 0) (Some [0]) []],
         RowData 1 5 5 5 (LocationData ''A'' [] [] 0) None
           [RowData 1 5 5 5 (LocationData ''B'' [] [] 0) (Some [1]) []]]"
  by (simp add: topdown_eval)

subsection \<open>Claims on the forests\<close>

lemma bottomUp_props:
  assumes "walksEnd d"
  obtains R where "mergeAllocations d = Some (setParents R None)" "sortedForest R"
    "costSum R = sum_list (map allocationCost
       (filter (\<lambda>a. traceIndex a \<noteq> 0) (AccumulatedTraceData.allocations d)))"
    "\<And>p. p \<noteq> [] \<Longrightarrow> costAt R p = sum_list (map allocationCost
       (filter (passesThrough d p) (AccumulatedTraceData.allocations d)))"
proof -
  from mergeAllocations_returns [OF assms] obtain R where
    R: "mergeAllocationsLoop d (AccumulatedTraceData.allocations d) [] = Some R"
    and bu: "mergeAllocations d = Some (setParents R None)" by blast
  from mergeAllocationsLoop_props [OF R] have
    "sortedForest R"
    "costSum R = sum_list (map allocationCost
       (filter (\<lambda>a. traceIndex a \<noteq> 0) (AccumulatedTraceData.allocations d)))"
    "\<And>p. p \<noteq> [] \<Longrightarrow> costAt R p = sum_list (map allocationCost
       (filter (passesThrough d p) (AccumulatedTraceData.allocations d)))"
    by simp_all
  with bu show thesis using that by blast
qed

lemma topDown_props:
  fixes R :: "RowData list"
  defines "bu \<equiv> setParents R None"
  defines "td \<equiv> setParents (addLeaves (leafChains [] bu) []) None"
  shows "toTopDownData bu = Some td"
    and "costSum td = sum_list (map leafCost bu)"
    and "dedupForest td"
proof -
  show "toTopDownData bu = Some td"
    unfolding bu_def td_def by (rule toTopDownData_setParents)
  have "\<forall>(row, chain) \<in> set (leafChains [] bu). chain \<noteq> []"
    using leafChains_nonempty by blast
  from costSum_addLeaves [OF this, of "[]"]
  show "costSum td = sum_list (map leafCost bu)"
    unfolding td_def by (simp add: sum_leafChains)
  show "dedupForest td"
    unfolding td_def by (simp add: dedupForest_setParents dedupForest_addLeaves)
qed

subsection \<open>Walks that are no proper prefixes of each other\<close>

lemma noProperPrefixD:
  assumes "noProperPrefix d"
    and "a \<in> set (AccumulatedTraceData.allocations d)"
    and "a' \<in> set (AccumulatedTraceData.allocations d)"
    and "walk d (traceIndex a) = Some q" and "walk d (traceIndex a') = Some q'"
  shows "q = [] \<or> \<not> strict_prefix q q'"
proof -
  from assms(1,2,3) have
    "case (walk d (traceIndex a), walk d (traceIndex a')) of
       (Some q, Some q') \<Rightarrow> q = [] \<or> \<not> strict_prefix q q'
     | _ \<Rightarrow> True"
    unfolding noProperPrefix_def by blast
  then show ?thesis by (simp add: assms(4,5))
qed

text \<open>The paths of the rows after a merge.\<close>

lemma nonempty_prefix_Cons:
  "{p. p \<noteq> [] \<and> prefix p (loc # path)} = insert [loc] {loc # p' | p'. p' \<noteq> [] \<and> prefix p' path}"
proof (intro set_eqI iffI)
  fix p
  assume "p \<in> {p. p \<noteq> [] \<and> prefix p (loc # path)}"
  then obtain p' where p: "p = loc # p'" "prefix p' path"
    by (cases p) auto
  then show "p \<in> insert [loc] {loc # p' | p'. p' \<noteq> [] \<and> prefix p' path}"
    by (cases p') auto
next
  fix p
  assume "p \<in> insert [loc] {loc # p' | p'. p' \<noteq> [] \<and> prefix p' path}"
  then show "p \<in> {p. p \<noteq> [] \<and> prefix p (loc # path)}" by auto
qed

lemma paths_rowsWithPaths_Cons:
  "fst ` set (rowsWithPaths pre (r # rs)) =
     insert (pre @ [RowData.location r])
       (fst ` set (rowsWithPaths (pre @ [RowData.location r]) (RowData.children r))
        \<union> fst ` set (rowsWithPaths pre rs))"
  by (cases r) (simp add: image_Un)

lemma paths_mergeRows:
  "fst ` set (rowsWithPaths pre (mergeRows a q F)) =
     fst ` set (rowsWithPaths pre F) \<union> {pre @ p | p. p \<noteq> [] \<and> prefix p q}"
proof (induction a q F arbitrary: pre rule: mergeRows.induct)
  case (1 a rws)
  then show ?case by simp
next
  case (2 a loc path)
  have "{pre @ p | p. p \<noteq> [] \<and> prefix p (loc # path)}
      = insert (pre @ [loc]) {(pre @ [loc]) @ p' | p'. p' \<noteq> [] \<and> prefix p' path}"
    using nonempty_prefix_Cons [of loc path] by auto
  then show ?case using 2 [of "pre @ [loc]"] by simp
next
  case (3 a loc path r rs)
  have split: "{pre @ p | p. p \<noteq> [] \<and> prefix p (loc # path)}
      = insert (pre @ [loc]) {(pre @ [loc]) @ p' | p'. p' \<noteq> [] \<and> prefix p' path}"
    using nonempty_prefix_Cons [of loc path] by auto
  show ?case
  proof (cases "RowData.location r < loc")
    case True
    then show ?thesis
      using "3.IH"(1) [OF True, of pre]
      by (simp only: mergeRows.simps if_True paths_rowsWithPaths_Cons) blast
  next
    case False
    show ?thesis
    proof (cases "RowData.location r = loc")
      case True
      have "fst ` set (rowsWithPaths pre (mergeRows a (loc # path) (r # rs)))
          = insert (pre @ [loc])
              (fst ` set (rowsWithPaths (pre @ [loc]) (mergeRows a path (RowData.children r)))
               \<union> fst ` set (rowsWithPaths pre rs))"
        using False True by (simp add: paths_rowsWithPaths_Cons)
      also have "\<dots> = insert (pre @ [loc])
              ((fst ` set (rowsWithPaths (pre @ [loc]) (RowData.children r))
                 \<union> {(pre @ [loc]) @ p' | p'. p' \<noteq> [] \<and> prefix p' path})
               \<union> fst ` set (rowsWithPaths pre rs))"
        using "3.IH"(2) [OF False True, of "pre @ [loc]"] by simp
      finally show ?thesis
        unfolding split paths_rowsWithPaths_Cons True by blast
    next
      case ne: False
      have "fst ` set (rowsWithPaths pre (mergeRows a (loc # path) (r # rs)))
          = insert (pre @ [loc])
              (fst ` set (rowsWithPaths (pre @ [loc]) (mergeRows a path []))
               \<union> fst ` set (rowsWithPaths pre (r # rs)))"
        using False ne by (simp add: image_Un)
      also have "\<dots> = insert (pre @ [loc])
              ({(pre @ [loc]) @ p' | p'. p' \<noteq> [] \<and> prefix p' path}
               \<union> fst ` set (rowsWithPaths pre (r # rs)))"
        using "3.IH"(3) [OF False ne, of "pre @ [loc]"] by simp
      finally show ?thesis
        unfolding split by blast
    qed
  qed
qed


lemma mergeAllocationsLoop_paths:
  "mergeAllocationsLoop d as F = Some R \<Longrightarrow>
   fst ` set (rowsWithPaths [] R) =
     fst ` set (rowsWithPaths [] F) \<union> {p. p \<noteq> [] \<and> (\<exists>a \<in> set as. passesThrough d p a)}"
proof (induction as arbitrary: F)
  case Nil
  then show ?case by simp
next
  case (Cons a as)
  from Cons.prems obtain F1 where
    1: "mergeAllocation d a (traceIndex a) F = Some F1" and
    2: "mergeAllocationsLoop d as F1 = Some R"
    by (auto split: Option.bind_splits)
  from mergeAllocation_Some_walk [OF 1] obtain q where q: "walk d (traceIndex a) = Some q"
    by blast
  have F1: "F1 = mergeRows a q F"
    using mergeAllocation_walk [OF q, of a F] 1 by simp
  have "fst ` set (rowsWithPaths [] F1) =
     fst ` set (rowsWithPaths [] F) \<union> {p. p \<noteq> [] \<and> passesThrough d p a}"
    unfolding F1 using paths_mergeRows [of "[]" a q F] by (simp add: passesThrough_walk [OF q])
  with Cons.IH [OF 2] show ?case by auto
qed

text \<open>Rows and their children in the list of all rows.\<close>

lemma rowsWithPaths_top:
  "c \<in> set F \<Longrightarrow> (pre @ [RowData.location c], c) \<in> set (rowsWithPaths pre F)"
  by (induction pre F rule: rowsWithPaths.induct) auto

lemma rowsWithPaths_child:
  "(p, r) \<in> set (rowsWithPaths pre F) \<Longrightarrow> c \<in> set (RowData.children r) \<Longrightarrow>
   (p @ [RowData.location c], c) \<in> set (rowsWithPaths pre F)"
proof (induction pre F rule: rowsWithPaths.induct)
  case (1 pre)
  then show ?case by simp
next
  case (2 pre a pk l al loc par ch rest)
  from "2.prems"(1) consider
    (here) "p = pre @ [loc]" "r = RowData a pk l al loc par ch"
    | (below) "(p, r) \<in> set (rowsWithPaths (pre @ [loc]) ch)"
    | (later) "(p, r) \<in> set (rowsWithPaths pre rest)"
    by auto
  then show ?case
  proof cases
    case here
    then have "c \<in> set ch" using "2.prems"(2) by simp
    from rowsWithPaths_top [OF this, of "pre @ [loc]"] show ?thesis using here by simp
  next
    case below
    then show ?thesis using "2.IH"(1) "2.prems"(2) by simp
  next
    case later
    then show ?thesis using "2.IH"(2) "2.prems"(2) by simp
  qed
qed

lemma rowsWithPaths_dedupRow:
  "dedupForest F \<Longrightarrow> (p, r) \<in> set (rowsWithPaths pre F) \<Longrightarrow> dedupRow r"
proof (induction pre F rule: rowsWithPaths.induct)
  case (1 pre)
  then show ?case by simp
next
  case (2 pre a pk l al loc par ch rest)
  from "2.prems"(1) have dch: "dedupForest ch" and drest: "dedupForest rest"
    by (simp_all add: dedupForest_Cons)
  from dch have d: "dedupRow (RowData a pk l al loc par ch)"
    by (simp add: dedupRow_children)
  from "2.prems"(2) consider
    (here) "r = RowData a pk l al loc par ch"
    | (below) "(p, r) \<in> set (rowsWithPaths (pre @ [loc]) ch)"
    | (later) "(p, r) \<in> set (rowsWithPaths pre rest)"
    by auto
  then show ?case
  proof cases
    case here
    then show ?thesis using d by simp
  next
    case below
    then show ?thesis using "2.IH"(1) dch by simp
  next
    case later
    then show ?thesis using "2.IH"(2) drest by simp
  qed
qed

lemma find_location_Some:
  "find (\<lambda>r. RowData.location r = l) F = Some c \<Longrightarrow> c \<in> set F \<and> RowData.location c = l"
  by (induction F) (auto split: if_splits)

lemma findRow_snoc:
  "findRow F (p @ [l]) = Some c \<Longrightarrow> p \<noteq> [] \<Longrightarrow>
   \<exists>r. findRow F p = Some r \<and> c \<in> set (RowData.children r) \<and> RowData.location c = l"
proof (induction p arbitrary: F)
  case Nil
  then show ?case by simp
next
  case (Cons l0 p)
  show ?case
  proof (cases p)
    case Nil
    from Cons.prems(1) have
      "(case find (\<lambda>r. RowData.location r = l0) F of
          None \<Rightarrow> None
        | Some r \<Rightarrow> findRow (RowData.children r) [l]) = Some c"
      unfolding Nil by simp
    then obtain r0 where r0: "find (\<lambda>r. RowData.location r = l0) F = Some r0"
      and c: "find (\<lambda>r. RowData.location r = l) (RowData.children r0) = Some c"
      by (cases "find (\<lambda>r. RowData.location r = l0) F") simp_all
    from find_location_Some [OF c] show ?thesis using r0 unfolding Nil by simp
  next
    case tl: (Cons l1 p')
    from Cons.prems(1) have
      "(case find (\<lambda>r. RowData.location r = l0) F of
          None \<Rightarrow> None
        | Some r \<Rightarrow> findRow (RowData.children r) (l1 # p' @ [l])) = Some c"
      unfolding tl by simp
    then obtain r0 where r0: "find (\<lambda>r. RowData.location r = l0) F = Some r0"
      and below: "findRow (RowData.children r0) (p @ [l]) = Some c"
      unfolding tl by (cases "find (\<lambda>r. RowData.location r = l0) F") simp_all
    have "p \<noteq> []" using tl by simp
    from Cons.IH [OF below this] obtain r where
      r: "findRow (RowData.children r0) p = Some r" "c \<in> set (RowData.children r)"
      "RowData.location c = l" by blast
    have "findRow F (l0 # p) = findRow (RowData.children r0) p"
      unfolding tl using r0 by simp
    with r show ?thesis by simp
  qed
qed

text \<open>Sums over the allocations, split by the child through which the walk goes on.\<close>

lemma sum_list_filter_disj:
  fixes f :: "'a \<Rightarrow> Cost"
  assumes "\<And>a. a \<in> set as \<Longrightarrow> \<not> (P a \<and> P' a)"
  shows "sum_list (map f (filter (\<lambda>a. P a \<or> P' a) as))
       = sum_list (map f (filter P as)) + sum_list (map f (filter P' as))"
  using assms by (induction as) (auto simp: ac_simps)

lemma sum_children_filter:
  fixes f :: "'a \<Rightarrow> Cost"
  assumes "distinct (map RowData.location ch)"
    and "\<And>a l l'. a \<in> set as \<Longrightarrow> Q l a \<Longrightarrow> Q l' a \<Longrightarrow> l = l'"
  shows "sum_list (map (\<lambda>c. sum_list (map f (filter (Q (RowData.location c)) as))) ch)
       = sum_list (map f (filter (\<lambda>a. \<exists>c \<in> set ch. Q (RowData.location c) a) as))"
  using assms(1)
proof (induction ch)
  case Nil
  then show ?case by simp
next
  case (Cons c cs)
  have disj: "\<not> (Q (RowData.location c) a \<and> (\<exists>c' \<in> set cs. Q (RowData.location c') a))"
    if "a \<in> set as" for a
    using assms(2) [OF that] Cons.prems by force
  have "sum_list (map f (filter (\<lambda>a. \<exists>c' \<in> set (c # cs). Q (RowData.location c') a) as))
      = sum_list (map f (filter (\<lambda>a. Q (RowData.location c) a
            \<or> (\<exists>c' \<in> set cs. Q (RowData.location c') a)) as))"
    by simp
  also have "\<dots> = sum_list (map f (filter (Q (RowData.location c)) as))
      + sum_list (map f (filter (\<lambda>a. \<exists>c' \<in> set cs. Q (RowData.location c') a) as))"
    using disj by (rule sum_list_filter_disj)
  finally show ?case using Cons by simp
qed

text \<open>A forest is balanced when every row with children is.\<close>

lemma balanced_pathwise:
  "\<forall>(p, r) \<in> set (rowsWithPaths pre F).
      RowData.children r = [] \<or> rowCost r = costSum (RowData.children r) \<Longrightarrow>
   \<forall>r \<in> set F. balancedRow r"
proof (induction pre F rule: rowsWithPaths.induct)
  case (1 pre)
  then show ?case by simp
next
  case (2 pre a pk l al loc par ch rest)
  have "\<forall>c \<in> set ch. balancedRow c"
    using "2.IH"(1) "2.prems" by simp
  moreover have "\<forall>r \<in> set rest. balancedRow r"
    using "2.IH"(2) "2.prems" by simp
  moreover have "ch = [] \<or> Cost a pk l al = sum_list (map rowCost ch)"
    using "2.prems" by (simp add: costSum_def)
  ultimately show ?case by simp
qed

text \<open>
  When no walk is a proper prefix of another, every row with children carries the sum of
  the costs of its children.
\<close>

lemma noProperPrefix_balanced:
  assumes R: "mergeAllocationsLoop d (AccumulatedTraceData.allocations d) [] = Some R"
    and np: "noProperPrefix d"
  shows "\<forall>r \<in> set R. balancedRow r"
proof (rule balanced_pathwise [of "[]"], clarify)
  fix p r
  assume pr: "(p, r) \<in> set (rowsWithPaths [] R)"
    and ne: "rowCost r \<noteq> costSum (RowData.children r)"
  let ?as = "AccumulatedTraceData.allocations d"
  from mergeAllocationsLoop_props [OF R] have
    sorted: "sortedForest R"
    and cost: "\<And>p. p \<noteq> [] \<Longrightarrow> costAt R p
        = sum_list (map allocationCost (filter (passesThrough d p) ?as))"
    and walks: "\<forall>a \<in> set ?as. \<exists>q. walk d (traceIndex a) = Some q"
    by simp_all
  have dedup: "dedupForest R" using sorted by (rule sortedForest_dedupForest)
  have paths: "fst ` set (rowsWithPaths [] R)
      = {p. p \<noteq> [] \<and> (\<exists>a \<in> set ?as. passesThrough d p a)}"
    using mergeAllocationsLoop_paths [OF R] by simp
  from rowsWithPaths_costAt [OF dedup pr] have rc: "rowCost r = costAt R p" and pne: "p \<noteq> []"
    by simp_all
  from rowsWithPaths_findRow [OF dedup pr] have fr: "findRow R p = Some r" by simp
  have dch: "distinct (map RowData.location (RowData.children r))"
    using rowsWithPaths_dedupRow [OF dedup pr] by (cases r) simp
  show "RowData.children r = []"
  proof (rule ccontr)
    assume nonempty: "RowData.children r \<noteq> []"
    then obtain c0 where c0: "c0 \<in> set (RowData.children r)" by (cases "RowData.children r") auto
    from rowsWithPaths_child [OF pr c0] have
      "p @ [RowData.location c0] \<in> fst ` set (rowsWithPaths [] R)" by force
    with paths obtain a0 where a0: "a0 \<in> set ?as"
      and pa0: "passesThrough d (p @ [RowData.location c0]) a0" by auto
    from walks a0 obtain q0 where q0: "walk d (traceIndex a0) = Some q0" by blast
    have longer: "prefix (p @ [RowData.location c0]) q0"
      using pa0 by (simp add: passesThrough_walk [OF q0])
    have child: "rowCost c = sum_list (map allocationCost
        (filter (passesThrough d (p @ [RowData.location c])) ?as))"
      if "c \<in> set (RowData.children r)" for c
      using rowsWithPaths_costAt [OF dedup rowsWithPaths_child [OF pr that]] cost by simp
    have iff: "(\<exists>c \<in> set (RowData.children r). passesThrough d (p @ [RowData.location c]) a)
        = passesThrough d p a" if a: "a \<in> set ?as" for a
    proof
      assume "\<exists>c \<in> set (RowData.children r). passesThrough d (p @ [RowData.location c]) a"
      then show "passesThrough d p a"
        by (auto simp: passesThrough_def dest: append_prefixD split: option.splits)
    next
      assume pa: "passesThrough d p a"
      from walks a obtain q where q: "walk d (traceIndex a) = Some q" by blast
      from pa have pq: "prefix p q" by (simp add: passesThrough_walk [OF q])
      have "q \<noteq> p"
      proof
        assume "q = p"
        then have "strict_prefix q q0" using longer by (auto simp: strict_prefix_def prefix_def)
        moreover have "q = [] \<or> \<not> strict_prefix q q0"
          using noProperPrefixD [OF np a a0 q q0] .
        ultimately show False using pne \<open>q = p\<close> by simp
      qed
      with pq obtain l rest where qq: "q = p @ l # rest"
        by (cases "drop (length p) q") (auto simp: prefix_def)
      have "passesThrough d (p @ [l]) a"
        by (simp add: passesThrough_walk [OF q] qq)
      then have "p @ [l] \<in> fst ` set (rowsWithPaths [] R)"
        unfolding paths using a by auto
      then obtain c where "(p @ [l], c) \<in> set (rowsWithPaths [] R)" by auto
      from rowsWithPaths_findRow [OF dedup this] have "findRow R (p @ [l]) = Some c" by simp
      from findRow_snoc [OF this pne] fr have "c \<in> set (RowData.children r)"
        "RowData.location c = l" by auto
      then show "\<exists>c \<in> set (RowData.children r). passesThrough d (p @ [RowData.location c]) a"
        using \<open>passesThrough d (p @ [l]) a\<close> by auto
    qed
    have unique: "l = l'"
      if "a \<in> set ?as" "passesThrough d (p @ [l]) a" "passesThrough d (p @ [l']) a" for a l l'
      using that(2,3) by (auto simp: passesThrough_def prefix_def split: option.splits)
    have "costSum (RowData.children r)
        = sum_list (map (\<lambda>c. sum_list (map allocationCost
            (filter (passesThrough d (p @ [RowData.location c])) ?as))) (RowData.children r))"
      unfolding costSum_def using child by (intro arg_cong [where f = sum_list] map_cong) auto
    also have "\<dots> = sum_list (map allocationCost
        (filter (\<lambda>a. \<exists>c \<in> set (RowData.children r). passesThrough d (p @ [RowData.location c]) a) ?as))"
      using dch unique
      by (rule sum_children_filter [where Q = "\<lambda>l a. passesThrough d (p @ [l]) a"])
    also have "\<dots> = sum_list (map allocationCost (filter (passesThrough d p) ?as))"
      using iff by (intro arg_cong [where f = sum_list] arg_cong [where f = "map allocationCost"] filter_cong) auto
    also have "\<dots> = rowCost r" using rc cost [OF pne] by simp
    finally show False using ne by simp
  qed
qed

text \<open>
  Claim C1, as amended. Let every walk end. Then \<^verbatim>\<open>mergeAllocations\<close> and \<^verbatim>\<open>toTopDownData\<close>
  return, and, adding field by field as the program does: the costs of the top-level rows
  of the bottom-up forest sum up to the costs of the allocation records with a non-zero
  trace index; and when no walk is a proper prefix of another, the costs of the top-level
  rows of the top-down forest sum up to the same.
\<close>

theorem C1_conservation:
  assumes "walksEnd d"
  shows "\<exists>bu td. mergeAllocations d = Some bu \<and> toTopDownData bu = Some td
     \<and> costSum bu = sum_list (map allocationCost
           (filter (\<lambda>a. traceIndex a \<noteq> 0) (AccumulatedTraceData.allocations d)))
     \<and> (noProperPrefix d \<longrightarrow> costSum td = costSum bu)"
proof -
  from mergeAllocations_returns [OF assms] obtain R where
    R: "mergeAllocationsLoop d (AccumulatedTraceData.allocations d) [] = Some R"
    and bu: "mergeAllocations d = Some (setParents R None)" by blast
  from mergeAllocationsLoop_props [OF R] have
    sum: "costSum R = sum_list (map allocationCost
       (filter (\<lambda>a. traceIndex a \<noteq> 0) (AccumulatedTraceData.allocations d)))"
    by simp
  let ?bu = "setParents R None"
  let ?td = "setParents (addLeaves (leafChains [] ?bu) []) None"
  have "toTopDownData ?bu = Some ?td" and td: "costSum ?td = sum_list (map leafCost ?bu)"
    using topDown_props [of R] by simp_all
  moreover have "costSum ?bu = sum_list (map allocationCost
       (filter (\<lambda>a. traceIndex a \<noteq> 0) (AccumulatedTraceData.allocations d)))"
    using sum by simp
  moreover have "costSum ?td = costSum ?bu" if "noProperPrefix d"
  proof -
    have "sum_list (map leafCost ?bu) = sum_list (map leafCost R)"
      unfolding setParents_def by (simp only: leafCost_setParentsFrom)
    also have "\<dots> = costSum R"
      using noProperPrefix_balanced [OF R that] by (rule balanced_leafCost_sum)
    finally show ?thesis using td by simp
  qed
  ultimately show ?thesis using bu by blast
qed

text \<open>
  The hypotheses hold in the scenario of the spec, and there all three sums are
  \<open>(2, 150, 150, 150)\<close>.
\<close>

theorem C1_conservation_witness:
  "walksEnd (exData [exAllocation 1 100, exAllocation 1 50])
   \<and> noProperPrefix (exData [exAllocation 1 100, exAllocation 1 50])
   \<and> (\<exists>bu td. mergeAllocations (exData [exAllocation 1 100, exAllocation 1 50]) = Some bu
         \<and> toTopDownData bu = Some td
         \<and> costSum bu = Cost 2 150 150 150 \<and> costSum td = Cost 2 150 150 150)"
proof -
  let ?d = "exData [exAllocation 1 100, exAllocation 1 50]"
  from C1_conservation [OF ex_shared_walksEnd] ex_shared_noProperPrefix obtain bu td where
    1: "mergeAllocations ?d = Some bu" "toTopDownData bu = Some td"
    and 2: "costSum td = costSum bu"
    by blast
  from 1(1) have bu: "bu = [RowData 2 150 150 150 (LocationData ''B'' [] [] 0) None
     [RowData 2 150 150 150 (LocationData ''A'' [] [] 0) (Some [0])
       [RowData 2 150 150 150 (LocationData ''main'' [] [] 0) (Some [0, 0]) []]]]"
    unfolding ex_shared_merge by simp
  have "costSum bu = Cost 2 150 150 150"
    unfolding bu by (simp add: zero_Cost_def)
  with 2 have "costSum bu = Cost 2 150 150 150 \<and> costSum td = Cost 2 150 150 150"
    by simp
  with 1 ex_shared_walksEnd ex_shared_noProperPrefix show ?thesis by blast
qed

text \<open>
  The claim as stated fails on three allocations: one with the walk \<open>B\<close>, \<open>A\<close>, \<open>main\<close>, one
  whose walk \<open>B\<close>, \<open>A\<close> is a proper prefix of it, and one with the trace index 0. The records
  sum up to \<open>(3, 153, 153, 153)\<close>, the bottom-up top-level rows to \<open>(2, 150, 150, 150)\<close> and the
  top-down top-level rows to \<open>(1, 100, 100, 100)\<close>.
\<close>

theorem C1_counterexample:
  "map_option costSum
     (mergeAllocations (exData [exAllocation 1 100, exAllocation 4 50, exAllocation 0 3]))
     = Some (Cost 2 150 150 150)
   \<and> map_option costSum
       (mergeAllocations (exData [exAllocation 1 100, exAllocation 4 50, exAllocation 0 3])
          \<bind> toTopDownData)
     = Some (Cost 1 100 100 100)
   \<and> sum_list (map allocationCost [exAllocation 1 100, exAllocation 4 50, exAllocation 0 3])
     = Cost 3 153 153 153"
  unfolding ex_prefix_merge Option.bind.bind_lunit ex_prefix_topdown
  by (simp add: zero_Cost_def allocationCost_def exAllocation_def)

text \<open>
  Claim C2. Let every walk end. Then \<^verbatim>\<open>mergeAllocations\<close> returns, and every row of the forest,
  at any depth, carries in its four cost fields the sum (field by field, as the program
  adds) of the costs of exactly those allocation records whose walk passes through the
  row's path, that is, has the row's path of locations as a prefix.
\<close>

theorem C2_bottom_up_costs:
  assumes "walksEnd d"
  shows "\<exists>bu. mergeAllocations d = Some bu
     \<and> (\<forall>(p, r) \<in> set (rowsWithPaths [] bu).
           rowCost r = sum_list (map allocationCost
             (filter (passesThrough d p) (AccumulatedTraceData.allocations d))))"
proof -
  from bottomUp_props [OF assms] obtain R where
    bu: "mergeAllocations d = Some (setParents R None)"
    and srt: "sortedForest R"
    and at: "\<And>p. p \<noteq> [] \<Longrightarrow> costAt R p = sum_list (map allocationCost
       (filter (passesThrough d p) (AccumulatedTraceData.allocations d)))"
    by blast
  have "rowCost r = sum_list (map allocationCost
          (filter (passesThrough d p) (AccumulatedTraceData.allocations d)))"
    if "(p, r) \<in> set (rowsWithPaths [] (setParents R None))" for p r
  proof -
    from that have "(p, rowCost r) \<in> set (map (\<lambda>(p, r). (p, rowCost r))
        (rowsWithPaths [] (setParentsFrom 0 R None)))"
      by (force simp: setParents_def)
    then have "(p, rowCost r) \<in> set (map (\<lambda>(p, r). (p, rowCost r)) (rowsWithPaths [] R))"
      by (simp only: rowsWithPaths_setParentsFrom)
    then obtain r' where r': "(p, r') \<in> set (rowsWithPaths [] R)" "rowCost r' = rowCost r"
      by auto
    from rowsWithPaths_costAt [OF sortedForest_dedupForest [OF srt] r'(1)]
    have "rowCost r' = costAt R p" "p \<noteq> []" by simp_all
    then show ?thesis using at r'(2) by simp
  qed
  then show ?thesis using bu by blast
qed

text \<open>
  In the scenario of the spec the hypothesis holds, and both allocations pass through the
  path \<open>B\<close>, \<open>A\<close>: its row carries \<open>(2, 150, 150, 150)\<close>.
\<close>

theorem C2_bottom_up_costs_witness:
  "walksEnd (exData [exAllocation 1 100, exAllocation 1 50])
   \<and> (\<exists>bu. mergeAllocations (exData [exAllocation 1 100, exAllocation 1 50]) = Some bu
         \<and> (\<forall>(p, r) \<in> set (rowsWithPaths [] bu).
               rowCost r = sum_list (map allocationCost
                 (filter (passesThrough (exData [exAllocation 1 100, exAllocation 1 50]) p)
                    [exAllocation 1 100, exAllocation 1 50]))))
   \<and> sum_list (map allocationCost
         (filter (passesThrough (exData [exAllocation 1 100, exAllocation 1 50])
                    [LocationData ''B'' [] [] 0, LocationData ''A'' [] [] 0])
            [exAllocation 1 100, exAllocation 1 50])) = Cost 2 150 150 150"
proof -
  have "sum_list (map allocationCost
         (filter (passesThrough (exData [exAllocation 1 100, exAllocation 1 50])
                    [LocationData ''B'' [] [] 0, LocationData ''A'' [] [] 0])
            [exAllocation 1 100, exAllocation 1 50])) = Cost 2 150 150 150"
    by (simp add: passesThrough_def ex_walk1 allocationCost_def exAllocation_def zero_Cost_def)
  then show ?thesis
    using C2_bottom_up_costs [OF ex_shared_walksEnd] ex_shared_walksEnd by simp
qed

text \<open>
  Claim C3. On a bottom-up forest whose parent pointers have been set by \<^verbatim>\<open>setParents\<close>, and so
  on every forest that \<^verbatim>\<open>mergeAllocations\<close> returns, \<^verbatim>\<open>toTopDownData\<close> returns the forest obtained
  from the empty forest by taking the bottom-up leaves in order and, for each leaf, adding
  the leaf's own four totals to the row with the matching location at every level along the
  leaf's parent chain (the leaf's own location first, the location of its top-level
  ancestor last), creating a missing row with all-zero costs first; its parent pointers are
  then set. Rows with children are only descended into.
\<close>

theorem C3_top_down_inversion:
  "toTopDownData (setParents F None) =
     Some (setParents (addLeaves (leafChains [] (setParents F None)) []) None)
   \<and> (mergeAllocations d = Some bu \<longrightarrow>
        toTopDownData bu = Some (setParents (addLeaves (leafChains [] bu) []) None))"
proof
  show "toTopDownData (setParents F None) =
     Some (setParents (addLeaves (leafChains [] (setParents F None)) []) None)"
    by (rule toTopDownData_setParents)
  show "mergeAllocations d = Some bu \<longrightarrow>
        toTopDownData bu = Some (setParents (addLeaves (leafChains [] bu) []) None)"
  proof
    assume "mergeAllocations d = Some bu"
    then obtain R where "bu = setParents R None"
      using mergeAllocations_setParents by blast
    then show "toTopDownData bu = Some (setParents (addLeaves (leafChains [] bu) []) None)"
      by (simp add: toTopDownData_setParents)
  qed
qed

text \<open>
  In the scenario of the spec the only leaf is \<open>main\<close> with the chain \<open>main\<close>, \<open>A\<close>, \<open>B\<close>, and its
  totals \<open>(2, 150, 150, 150)\<close> end up at all three levels of the top-down forest.
\<close>

theorem C3_top_down_inversion_witness:
  "mergeAllocations (exData [exAllocation 1 100, exAllocation 1 50]) =
     Some [RowData 2 150 150 150 (LocationData ''B'' [] [] 0) None
       [RowData 2 150 150 150 (LocationData ''A'' [] [] 0) (Some [0])
         [RowData 2 150 150 150 (LocationData ''main'' [] [] 0) (Some [0, 0]) []]]]
   \<and> setParents (addLeaves (leafChains []
         [RowData 2 150 150 150 (LocationData ''B'' [] [] 0) None
           [RowData 2 150 150 150 (LocationData ''A'' [] [] 0) (Some [0])
             [RowData 2 150 150 150 (LocationData ''main'' [] [] 0) (Some [0, 0]) []]]]) []) None
     = [RowData 2 150 150 150 (LocationData ''main'' [] [] 0) None
         [RowData 2 150 150 150 (LocationData ''A'' [] [] 0) (Some [0])
           [RowData 2 150 150 150 (LocationData ''B'' [] [] 0) (Some [0, 0]) []]]]"
proof -
  let ?d = "exData [exAllocation 1 100, exAllocation 1 50]"
  let ?bu = "[RowData 2 150 150 150 (LocationData ''B'' [] [] 0) None
       [RowData 2 150 150 150 (LocationData ''A'' [] [] 0) (Some [0])
         [RowData 2 150 150 150 (LocationData ''main'' [] [] 0) (Some [0, 0]) []]]]"
  have m: "mergeAllocations ?d = Some ?bu" by (rule ex_shared_merge)
  from C3_top_down_inversion [of "[]" ?d ?bu] m
  have "toTopDownData ?bu = Some (setParents (addLeaves (leafChains [] ?bu) []) None)"
    by blast
  then have "setParents (addLeaves (leafChains [] ?bu) []) None
     = [RowData 2 150 150 150 (LocationData ''main'' [] [] 0) None
         [RowData 2 150 150 150 (LocationData ''A'' [] [] 0) (Some [0])
           [RowData 2 150 150 150 (LocationData ''B'' [] [] 0) (Some [0, 0]) []]]]"
    unfolding ex_shared_topdown by simp
  with m show ?thesis by blast
qed

text \<open>
  Claim C4. Let every walk end. Then both forests are returned, and in both no two rows of
  one sibling set (the top-level rows, or the children of one row) have equal locations.
\<close>

theorem C4_no_duplicate_siblings:
  assumes "walksEnd d"
  shows "\<exists>bu td. mergeAllocations d = Some bu \<and> toTopDownData bu = Some td
     \<and> dedupForest bu \<and> dedupForest td"
proof -
  from bottomUp_props [OF assms] obtain R where
    bu: "mergeAllocations d = Some (setParents R None)" and srt: "sortedForest R"
    by blast
  have "dedupForest (setParents R None)"
    using sortedForest_dedupForest [OF srt] by (simp add: dedupForest_setParents)
  then show ?thesis using bu topDown_props(1,3) [of R] by blast
qed

theorem C4_no_duplicate_siblings_witness:
  "walksEnd (exData [exAllocation 2 7, exAllocation 4 5])
   \<and> (\<exists>bu td. mergeAllocations (exData [exAllocation 2 7, exAllocation 4 5]) = Some bu
         \<and> toTopDownData bu = Some td \<and> dedupForest bu \<and> dedupForest td)"
proof -
  have w: "walksEnd (exData [exAllocation 2 7, exAllocation 4 5])"
    by (simp add: walksEnd_def ex_walk2 ex_walk4)
  from C4_no_duplicate_siblings [OF w] w show ?thesis by blast
qed

text \<open>
  Claim C5, as amended. Let every walk end. Then \<^verbatim>\<open>mergeAllocations\<close> returns, and in the
  bottom-up forest every sibling set is strictly sorted by location. (The top-down forest
  keeps its siblings in the order in which \<^verbatim>\<open>buildTopDown\<close> appended them.)
\<close>

theorem C5_bottom_up_sorted:
  assumes "walksEnd d"
  shows "\<exists>bu. mergeAllocations d = Some bu \<and> sortedForest bu"
proof -
  from bottomUp_props [OF assms] obtain R where
    bu: "mergeAllocations d = Some (setParents R None)" and srt: "sortedForest R"
    by blast
  then show ?thesis by (simp add: sortedForest_setParents)
qed

theorem C5_bottom_up_sorted_witness:
  "walksEnd (exData [exAllocation 4 5, exAllocation 2 7])
   \<and> (\<exists>bu. mergeAllocations (exData [exAllocation 4 5, exAllocation 2 7]) = Some bu
         \<and> sortedForest bu)"
proof -
  have w: "walksEnd (exData [exAllocation 4 5, exAllocation 2 7])"
    by (simp add: walksEnd_def ex_walk2 ex_walk4)
  from C5_bottom_up_sorted [OF w] w show ?thesis by blast
qed

text \<open>
  The claim as stated fails for the top-down forest of two allocations with the walks \<open>A\<close>,
  \<open>main\<close> and \<open>B\<close>, \<open>A\<close>: its top-level rows are \<open>main\<close> and \<open>A\<close>, in this order, and \<open>A\<close> is less than
  \<open>main\<close>.
\<close>

theorem C5_counterexample:
  "map_option (map RowData.location)
     (mergeAllocations (exData [exAllocation 2 7, exAllocation 4 5]) \<bind> toTopDownData)
     = Some [LocationData ''main'' [] [] 0, LocationData ''A'' [] [] 0]
   \<and> LocationData ''A'' [] [] 0 < LocationData ''main'' [] [] 0
   \<and> map_option sortedForest
       (mergeAllocations (exData [exAllocation 2 7, exAllocation 4 5]) \<bind> toTopDownData)
     = Some False"
  unfolding ex_two_merge Option.bind.bind_lunit ex_two_topdown
  by (simp add: less_LocationData_def sortedForest_def)

subsection \<open>Claim on string resolution\<close>

text \<open>
  Claim C9. \<^verbatim>\<open>stringify\<close> returns the empty string for the index zero and for an index
  above the size of the cache's string table, and the entry at position \<open>index - 1\<close>
  otherwise; the guarded \<^verbatim>\<open>at\<close> never throws. \<^verbatim>\<open>file\<close> returns the empty string for a frame
  whose \<open>fileIndex\<close> is zero. \<^verbatim>\<open>func\<close>, \<^verbatim>\<open>file\<close>, \<^verbatim>\<open>module\<close> and \<^verbatim>\<open>location\<close> return a value for
  every frame and every string table. No index stops the aggregation: \<^verbatim>\<open>handleTimeStamp\<close>
  returns for every state, and \<^verbatim>\<open>mergeAllocations\<close> returns for every state in which the walks
  end, whatever the indices of the frames are.
\<close>

theorem C9_string_resolution_total:
  "StringCache_stringify sc index =
     Some (if index = 0 \<or> index > length (m_strings sc) then []
           else m_strings sc ! (index - 1))
   \<and> StringCache_file sc (ip\<lparr>fileIndex := 0\<rparr>) = Some []
   \<and> (\<exists>f. StringCache_func sc ip = Some f)
   \<and> (\<exists>f. StringCache_file sc ip = Some f)
   \<and> (\<exists>m. StringCache_module sc ip = Some m)
   \<and> (\<exists>l. StringCache_location sc ip = Some l)
   \<and> (\<exists>d'. handleTimeStamp srt d oldStamp newStamp = Some d')
   \<and> (walksEnd d \<longrightarrow> (\<exists>bu. mergeAllocations d = Some bu))"
proof -
  have "StringCache_file sc (ip\<lparr>fileIndex := 0\<rparr>) = Some []"
    by (simp add: StringCache_file_def)
  moreover have "\<exists>f. StringCache_file sc ip = Some f"
    by (simp add: StringCache_file_def stringify_Some)
  moreover have "\<exists>m. StringCache_module sc ip = Some m"
    by (simp add: StringCache_module_def stringify_Some)
  moreover have "walksEnd d \<longrightarrow> (\<exists>bu. mergeAllocations d = Some bu)"
    using mergeAllocations_returns by blast
  ultimately show ?thesis
    using stringify_Some func_Some location_Some handleTimeStamp_Some by blast
qed

text \<open>
  A frame whose function, file and module indices all point beyond the string table (index
  9 in a table of four strings) resolves to empty strings, and the merge of an allocation
  returns.
\<close>

theorem C9_string_resolution_witness:
  "StringCache_stringify \<lparr>m_strings = exStrings\<rparr> 9 = Some []
   \<and> StringCache_location \<lparr>m_strings = exStrings\<rparr>
        \<lparr>instructionPointer = 0, moduleIndex = 9, functionIndex = 9, fileIndex = 9, line = 3\<rparr>
       = Some (LocationData [] [] [] 3)
   \<and> walksEnd (exData [exAllocation 1 100, exAllocation 1 50])
   \<and> (\<exists>bu. mergeAllocations (exData [exAllocation 1 100, exAllocation 1 50]) = Some bu)"
proof -
  have "StringCache_stringify \<lparr>m_strings = exStrings\<rparr> 9 = Some []"
    using C9_string_resolution_total [of "\<lparr>m_strings = exStrings\<rparr>" 9]
    by (simp add: exStrings_def)
  moreover have "StringCache_location \<lparr>m_strings = exStrings\<rparr>
        \<lparr>instructionPointer = 0, moduleIndex = 9, functionIndex = 9, fileIndex = 9, line = 3\<rparr>
       = Some (LocationData [] [] [] 3)"
    by (simp add: tree_eval)
  moreover have "\<exists>bu. mergeAllocations (exData [exAllocation 1 100, exAllocation 1 50]) = Some bu"
    using C9_string_resolution_total [of _ _ _ _ "exData [exAllocation 1 100, exAllocation 1 50]"]
      ex_shared_walksEnd by blast
  ultimately show ?thesis using ex_shared_walksEnd by blast
qed

end
